theory Spec2Isabelle
  imports Complex_Main "HOL-Library.Log_Nat"
begin

section \<open>Python values used by the sequencer\<close>

text \<open>
  The sequencing core lives in \<^verbatim>\<open>audio_source_track.py\<close> (class
  \<^verbatim>\<open>AudioSourceTrack\<close>) and \<^verbatim>\<open>audio_source_mixer.py\<close> (class
  \<^verbatim>\<open>AudioSourceMixer\<close>). Python integers are \<^typ>\<open>int\<close> (tempo, sample rate and
  step count are \<^verbatim>\<open>int\<close>s, as the docstrings have them); a pattern (a tuple of
  0/1 flags) is an \<^typ>\<open>int list\<close>. Exceptions are values of \<open>error\<close>. Sizes
  beyond the machine's memory (a pattern or a silence buffer that cannot be allocated)
  are not part of the model.
\<close>

datatype error = ValueError | IndexError | OverflowError | ZeroDivisionError

text \<open>\<^verbatim>\<open>xs[i]\<close> on a tuple: negative indices count from the end, anything else
  out of range raises.\<close>

definition py_getitem :: "'a list \<Rightarrow> int \<Rightarrow> error + 'a" where
  "py_getitem xs i =
     (let n = int (length xs) in
      if 0 \<le> i \<and> i < n then Inr (xs ! nat i)
      else if i < 0 \<and> - n \<le> i then Inr (xs ! nat (n + i))
      else Inl IndexError)"

subsection \<open>Floats\<close>

text \<open>
  A Python float is an IEEE 754 double. A finite double is represented by the rational
  it denotes (the two zeros are not told apart: no operation used here observes the
  sign of a zero). \<open>double_round x\<close> is the double nearest to the rational \<open>x\<close>, ties
  going to the even significand, with the exponent unbounded above: 53 significant
  bits from \<open>2 powi (- 1022)\<close> on, multiples of \<open>2 powi (- 1074)\<close> below. A result
  whose rounded magnitude reaches \<open>2 ^ 1024\<close> overflows: an exception for the conversion
  of an \<^verbatim>\<open>int\<close> and for the quotient of two \<^verbatim>\<open>int\<close>s, an infinity for an
  operation on floats. Clock readings are finite floats.
\<close>

definition round_half_even :: "rat \<Rightarrow> int" where
  "round_half_even x =
     (let n = \<lfloor>x\<rfloor>; r = x - of_int n
      in if r < 1 / 2 then n
         else if 1 / 2 < r then n + 1
         else if even n then n else n + 1)"

text \<open>For \<open>x > 0\<close>, the \<open>e\<close> with \<open>2 powi e \<le> x < 2 powi (e + 1)\<close>.\<close>

definition float_exponent :: "rat \<Rightarrow> int" where
  "float_exponent x =
     (if 1 \<le> x then bitlen \<lfloor>x\<rfloor> - 1 else - bitlen (\<lceil>1 / x\<rceil> - 1))"

definition double_round :: "rat \<Rightarrow> rat" where
  "double_round x =
     (if x = 0 then 0
      else (let e = max (float_exponent \<bar>x\<bar>) (- 1022);
                ulp = 2 powi (e - 52)
            in sgn x * (of_int (round_half_even (\<bar>x\<bar> / ulp)) * ulp)))"

definition double_overflow :: "rat \<Rightarrow> bool" where
  "double_overflow x = (2 ^ 1024 \<le> \<bar>double_round x\<bar>)"

text \<open>The value of a float operation: a finite double or an infinity. (No operation
  used here yields a NaN.)\<close>

datatype pyfloat = Finite rat | PosInf | NegInf

text \<open>The IEEE result of an operation whose exact result is \<open>x\<close>.\<close>

definition to_double :: "rat \<Rightarrow> pyfloat" where
  "to_double x =
     (if double_overflow x then (if 0 < x then PosInf else NegInf)
      else Finite (double_round x))"

text \<open>\<^verbatim>\<open>x >= y\<close> on floats.\<close>

fun float_ge :: "pyfloat \<Rightarrow> pyfloat \<Rightarrow> bool" where
  "float_ge PosInf y = True"
| "float_ge x NegInf = True"
| "float_ge (Finite x) (Finite y) = (y \<le> x)"
| "float_ge x y = False"

text \<open>\<^verbatim>\<open>x - y\<close> on two finite floats, as for two readings of \<^verbatim>\<open>time.time()\<close>.\<close>

definition float_sub :: "rat \<Rightarrow> rat \<Rightarrow> pyfloat" where
  "float_sub x y = to_double (x - y)"

text \<open>The conversion of an \<^verbatim>\<open>int\<close> to a float, which raises when the integer is
  too large.\<close>

definition float_of_int :: "int \<Rightarrow> error + rat" where
  "float_of_int i =
     (if double_overflow (of_int i) then Inl OverflowError
      else Inr (double_round (of_int i)))"

text \<open>\<^verbatim>\<open>x / i\<close> for a finite float \<open>x\<close> and an \<^verbatim>\<open>int\<close> \<open>i\<close>: the integer is
  converted first; a float quotient that overflows is an infinity, not an exception.\<close>

definition float_truediv_int :: "rat \<Rightarrow> int \<Rightarrow> error + pyfloat" where
  "float_truediv_int x i =
     (case float_of_int i of
        Inl e \<Rightarrow> Inl e
      | Inr y \<Rightarrow> if y = 0 then Inl ZeroDivisionError else Inr (to_double (x / y)))"

text \<open>\<^verbatim>\<open>a / b\<close> for two \<^verbatim>\<open>int\<close>s: the correctly rounded quotient, or an
  exception.\<close>

definition int_truediv :: "int \<Rightarrow> int \<Rightarrow> error + rat" where
  "int_truediv a b =
     (if b = 0 then Inl ZeroDivisionError
      else if double_overflow (of_int a / of_int b) then Inl OverflowError
      else Inr (double_round (of_int a / of_int b)))"

text \<open>\<^verbatim>\<open>int(x)\<close> for a finite float: truncation toward zero.\<close>

definition int_of_float :: "rat \<Rightarrow> int" where
  "int_of_float x = (if 0 \<le> x then \<lfloor>x\<rfloor> else \<lceil>x\<rceil>)"

text \<open>\<^verbatim>\<open>int(a / b)\<close> for two \<^verbatim>\<open>int\<close>s.\<close>

definition py_int_truediv :: "int \<Rightarrow> int \<Rightarrow> error + int" where
  "py_int_truediv a b =
     (case int_truediv a b of Inl e \<Rightarrow> Inl e | Inr q \<Rightarrow> Inr (int_of_float q))"

section \<open>AudioSourceTrack\<close>

text \<open>
  The fields of \<^verbatim>\<open>AudioSourceTrack\<close> that the sequencing logic reads or writes.
  \<open>stop_event\<close> is the \<^verbatim>\<open>threading.Event\<close> (set or cleared). The pygame handles
  (\<^verbatim>\<open>mixer\<close>, \<^verbatim>\<open>current_channel\<close>), the lock and the thread object are not
  data of the model: every method body that runs under \<^verbatim>\<open>pattern_lock\<close> is one
  atomic function here. \<open>step_duration\<close> is a float.
\<close>

record AudioSourceTrack =
  wav_samples :: "int list"
  nb_wav_samples :: int
  bpm :: int
  min_bpm :: int
  sample_rate :: int
  steps :: "int list"
  current_step_index :: int
  is_running :: bool
  stop_event :: bool
  step_nb_samples :: int
  buffer_nb_samples :: int
  step_duration :: pyfloat

text \<open>\<^verbatim>\<open>_compute_step_nb_samples\<close>: \<^verbatim>\<open>int(self.sample_rate * 15 / bpm_value)\<close>,
  which raises when the quotient is too large for a float.\<close>

definition Track_compute_step_nb_samples :: "AudioSourceTrack \<Rightarrow> int \<Rightarrow> error + int" where
  "Track_compute_step_nb_samples t bpm_value =
     (if bpm_value \<noteq> 0 then py_int_truediv (sample_rate t * 15) bpm_value else Inr 0)"

text \<open>\<^verbatim>\<open>_calculate_step_duration\<close>: \<^verbatim>\<open>15.0 / self.bpm\<close> is a float division; if
  it raises, the field is not written.\<close>

definition Track_calculate_step_duration :: "AudioSourceTrack \<Rightarrow> error + AudioSourceTrack" where
  "Track_calculate_step_duration t =
     (if bpm t > 0
      then (case float_truediv_int 15 (bpm t) of
              Inl e \<Rightarrow> Inl e
            | Inr d \<Rightarrow> Inr (t\<lparr>step_duration := d\<rparr>))
      else Inr (t\<lparr>step_duration := Finite 0\<rparr>))"

text \<open>\<^verbatim>\<open>__init__\<close>: the empty pattern \<^verbatim>\<open>()\<close>, cursor 0, not running. An
  exception of one of the computations leaves no track.\<close>

definition Track_init :: "int list \<Rightarrow> int \<Rightarrow> int \<Rightarrow> int \<Rightarrow> error + AudioSourceTrack" where
  "Track_init wav b rate mb =
     (let t0 = \<lparr>wav_samples = wav,
                nb_wav_samples = (if wav \<noteq> [] then int (length wav) else 0),
                bpm = b, min_bpm = mb, sample_rate = rate,
                steps = [], current_step_index = 0,
                is_running = False, stop_event = False,
                step_nb_samples = 0, buffer_nb_samples = 0, step_duration = Finite 0\<rparr>
      in case Track_compute_step_nb_samples t0 b of
           Inl e \<Rightarrow> Inl e
         | Inr n1 \<Rightarrow>
      (case Track_compute_step_nb_samples (t0\<lparr>step_nb_samples := n1\<rparr>) mb of
           Inl e \<Rightarrow> Inl e
         | Inr n2 \<Rightarrow>
      (case Track_calculate_step_duration
              (t0\<lparr>step_nb_samples := n1, buffer_nb_samples := n2\<rparr>) of
           Inl e \<Rightarrow> Inl e
         | Inr t3 \<Rightarrow>
             if b \<noteq> 0 then
               (case py_int_truediv (sample_rate t3 * 15) b of
                  Inl e \<Rightarrow> Inl e
                | Inr calculated_samples \<Rightarrow>
                    Inr (if calculated_samples \<noteq> step_nb_samples t3
                         then t3\<lparr>step_nb_samples := calculated_samples\<rparr> else t3))
             else Inr t3)))"

definition Track_start :: "AudioSourceTrack \<Rightarrow> AudioSourceTrack" where
  "Track_start t =
     (if \<not> is_running t then t\<lparr>is_running := True, stop_event := False\<rparr> else t)"

definition Track_stop :: "AudioSourceTrack \<Rightarrow> AudioSourceTrack" where
  "Track_stop t =
     (if is_running t then t\<lparr>is_running := False, stop_event := True\<rparr> else t)"

text \<open>\<^verbatim>\<open>_no_steps_activated\<close>: no entry of the pattern equals 1.\<close>

definition Track_no_steps_activated :: "AudioSourceTrack \<Rightarrow> bool" where
  "Track_no_steps_activated t =
     (if length (steps t) = 0 then True
      else \<not> list_ex (\<lambda>step. step = 1) (steps t))"

text \<open>
  \<^verbatim>\<open>_process_current_step\<close>. The result is the trigger decision: \<open>Inr True\<close> when
  \<^verbatim>\<open>_trigger_audio_sample\<close> is called (the only place that plays the sample buffer),
  \<open>Inr False\<close> when it is not, \<open>Inl IndexError\<close> if the read of
  \<^verbatim>\<open>self.steps[self.current_step_index]\<close> raised.
\<close>

definition Track_process_current_step :: "AudioSourceTrack \<Rightarrow> error + bool" where
  "Track_process_current_step t =
     (if \<not> Track_no_steps_activated t \<and> int (length (steps t)) > current_step_index t
      then (case py_getitem (steps t) (current_step_index t) of
              Inl e \<Rightarrow> Inl e
            | Inr flag \<Rightarrow> Inr (flag = 1))
      else Inr False)"

text \<open>The cursor advance of \<^verbatim>\<open>_sequencer_loop\<close> (the block under the lock).\<close>

definition Track_advance_step :: "AudioSourceTrack \<Rightarrow> AudioSourceTrack" where
  "Track_advance_step t =
     (let t1 = t\<lparr>current_step_index := current_step_index t + 1\<rparr>
      in if current_step_index t1 \<ge> int (length (steps t1))
         then t1\<lparr>current_step_index := 0\<rparr> else t1)"

text \<open>One tick of the track: the body of the elapsed-time test in
  \<^verbatim>\<open>_sequencer_loop\<close>. An exception leaves the loop before the advance.\<close>

definition Track_tick :: "AudioSourceTrack \<Rightarrow> error + (AudioSourceTrack \<times> bool)" where
  "Track_tick t =
     (case Track_process_current_step t of
        Inl e \<Rightarrow> Inl e
      | Inr trig \<Rightarrow> Inr (Track_advance_step t, trig))"

text \<open>
  One iteration of the \<^verbatim>\<open>while\<close> body of \<^verbatim>\<open>_sequencer_loop\<close>, given the clock
  reading \<open>current_time\<close> and the thread's local \<open>last_step_time\<close>; it returns the
  track, the new \<open>last_step_time\<close> and the trigger decisions taken (none or one).
\<close>

definition Track_sequencer_loop_iter ::
  "rat \<Rightarrow> rat \<Rightarrow> AudioSourceTrack \<Rightarrow> error + (AudioSourceTrack \<times> rat \<times> bool list)" where
  "Track_sequencer_loop_iter current_time last_step_time t =
     (if float_ge (float_sub current_time last_step_time) (step_duration t)
      then (case Track_tick t of
              Inl e \<Rightarrow> Inl e
            | Inr (t', trig) \<Rightarrow> Inr (t', current_time, [trig]))
      else Inr (t, last_step_time, []))"

text \<open>\<^verbatim>\<open>set_steps\<close>: any length is accepted; a length change resets the cursor.\<close>

definition Track_set_steps :: "int list \<Rightarrow> AudioSourceTrack \<Rightarrow> AudioSourceTrack" where
  "Track_set_steps new_steps t =
     (let t1 = (if length new_steps \<noteq> length (steps t)
                then t\<lparr>current_step_index := 0\<rparr> else t)
      in t1\<lparr>steps := new_steps\<rparr>)"

text \<open>\<^verbatim>\<open>set_bpm\<close>: the \<^verbatim>\<open>ValueError\<close> is raised before any field is written, so
  the track comes back as it was together with the error. An exception of a later
  computation leaves the fields written before it.\<close>

definition Track_set_bpm :: "int \<Rightarrow> AudioSourceTrack \<Rightarrow> AudioSourceTrack \<times> (error + unit)" where
  "Track_set_bpm new_bpm t =
     (if new_bpm \<le> 0 then (t, Inl ValueError)
      else (let t1 = t\<lparr>bpm := new_bpm\<rparr>
            in case Track_compute_step_nb_samples t1 new_bpm of
                 Inl e \<Rightarrow> (t1, Inl e)
               | Inr n \<Rightarrow>
                   (let t2 = t1\<lparr>step_nb_samples := n\<rparr>
                    in case Track_calculate_step_duration t2 of
                         Inl e \<Rightarrow> (t2, Inl e)
                       | Inr t3 \<Rightarrow> (t3, Inr ()))))"

text \<open>
  A track used on its own: the calls a client can make and the iterations of its loop
  thread, in any order. The loop body runs only while the loop condition
  \<^verbatim>\<open>self.is_running and not self.stop_event.is_set()\<close> holds; an exception ends the
  thread and leaves the track as it was.
\<close>

datatype track_op =
    TSetSteps "int list"
  | TSetBpm int
  | TStart
  | TStop
  | TLoopIter rat rat

fun Track_apply :: "track_op \<Rightarrow> AudioSourceTrack \<Rightarrow> AudioSourceTrack" where
  "Track_apply (TSetSteps p) t = Track_set_steps p t"
| "Track_apply (TSetBpm b) t = fst (Track_set_bpm b t)"
| "Track_apply TStart t = Track_start t"
| "Track_apply TStop t = Track_stop t"
| "Track_apply (TLoopIter now prev) t =
     (if is_running t \<and> \<not> stop_event t
      then (case Track_sequencer_loop_iter now prev t of
              Inl e \<Rightarrow> t
            | Inr (t', _, _) \<Rightarrow> t')
      else t)"

fun Track_run :: "track_op list \<Rightarrow> AudioSourceTrack \<Rightarrow> AudioSourceTrack" where
  "Track_run [] t = t"
| "Track_run (op # ops) t = Track_run ops (Track_apply op t)"

text \<open>\<open>k\<close> ticks in a row, stopping at the first exception.\<close>

fun Track_ticks :: "nat \<Rightarrow> AudioSourceTrack \<Rightarrow> error + AudioSourceTrack" where
  "Track_ticks 0 t = Inr t"
| "Track_ticks (Suc k) t =
     (case Track_tick t of
        Inl e \<Rightarrow> Inl e
      | Inr (t', _) \<Rightarrow> Track_ticks k t')"

section \<open>AudioSourceMixer\<close>

text \<open>
  The fields of \<^verbatim>\<open>AudioSourceMixer\<close>. Those whose names the track also has carry
  the prefix \<open>master_\<close> (\<^verbatim>\<open>self.bpm\<close> is \<open>master_bpm\<close>, and so on).
  \<open>on_current_step_changed\<close> records whether the callback is present (not
  \<^verbatim>\<open>None\<close>); the indices it is called with are returned as a list of notifications.
\<close>

record AudioSourceMixer =
  tracks :: "AudioSourceTrack list"
  master_sample_rate :: int
  master_bpm :: int
  master_min_bpm :: int
  nb_steps :: int
  master_current_step_index :: int
  is_playing :: bool
  master_is_running :: bool
  master_stop_event :: bool
  on_current_step_changed :: bool
  master_step_duration :: pyfloat

text \<open>\<^verbatim>\<open>_initialize_tracks\<close>: for each sample buffer in turn, a track is constructed,
  given the pattern \<^verbatim>\<open>(0,) * nb_steps\<close> (empty when \<^verbatim>\<open>nb_steps\<close> is negative) and
  appended; when the construction raises, the \<^verbatim>\<open>except\<close> clause prints a warning and
  the loop goes on without that track.\<close>

fun Mixer_initialize_tracks ::
  "int list list \<Rightarrow> int \<Rightarrow> int \<Rightarrow> int \<Rightarrow> int \<Rightarrow> AudioSourceMixer \<Rightarrow> AudioSourceMixer" where
  "Mixer_initialize_tracks [] b rate nb mb m = m"
| "Mixer_initialize_tracks (wav # rest) b rate nb mb m =
     (case Track_init wav b rate mb of
        Inl e \<Rightarrow> Mixer_initialize_tracks rest b rate nb mb m
      | Inr track \<Rightarrow>
          (let empty_pattern = replicate (nat nb) 0
           in Mixer_initialize_tracks rest b rate nb mb
                (m\<lparr>tracks := tracks m @ [Track_set_steps empty_pattern track]\<rparr>)))"

definition Mixer_calculate_step_duration :: "AudioSourceMixer \<Rightarrow> error + AudioSourceMixer" where
  "Mixer_calculate_step_duration m =
     (if master_bpm m > 0
      then (case float_truediv_int 15 (master_bpm m) of
              Inl e \<Rightarrow> Inl e
            | Inr d \<Rightarrow> Inr (m\<lparr>master_step_duration := d\<rparr>))
      else Inr (m\<lparr>master_step_duration := Finite 0\<rparr>))"

text \<open>\<^verbatim>\<open>__init__\<close>; the last step, \<^verbatim>\<open>_calculate_step_duration\<close>, is outside any
  \<^verbatim>\<open>try\<close>, so its exception leaves no mixer.\<close>

definition Mixer_init ::
  "int list list \<Rightarrow> int \<Rightarrow> int \<Rightarrow> int \<Rightarrow> bool \<Rightarrow> int \<Rightarrow> error + AudioSourceMixer" where
  "Mixer_init all_wav_samples b rate nb callback mb =
     (let m0 = \<lparr>tracks = [], master_sample_rate = rate, master_bpm = b,
                master_min_bpm = mb, nb_steps = nb, master_current_step_index = 0,
                is_playing = False, master_is_running = False, master_stop_event = False,
                on_current_step_changed = callback, master_step_duration = Finite 0\<rparr>;
          m1 = Mixer_initialize_tracks all_wav_samples b rate nb mb m0
      in Mixer_calculate_step_duration m1)"

definition Mixer_start :: "AudioSourceMixer \<Rightarrow> AudioSourceMixer" where
  "Mixer_start m =
     (if \<not> master_is_running m
      then m\<lparr>master_is_running := True, master_stop_event := False,
             tracks := map Track_start (tracks m)\<rparr>
      else m)"

definition Mixer_stop :: "AudioSourceMixer \<Rightarrow> AudioSourceMixer" where
  "Mixer_stop m =
     (if master_is_running m
      then m\<lparr>master_is_running := False, is_playing := False, master_stop_event := True,
             tracks := map Track_stop (tracks m)\<rparr>
      else m)"

text \<open>\<^verbatim>\<open>_process_master_step\<close>: the display index is the cursor minus 2, with
  \<^verbatim>\<open>nb_steps\<close> added once when that is negative; then the cursor advances.\<close>

definition Mixer_process_master_step :: "AudioSourceMixer \<Rightarrow> AudioSourceMixer \<times> int list" where
  "Mixer_process_master_step m =
     (let notified =
            (if on_current_step_changed m
             then (let display_step_index = master_current_step_index m - 2
                   in [if display_step_index < 0 then display_step_index + nb_steps m
                       else display_step_index])
             else []);
          m1 = m\<lparr>master_current_step_index := master_current_step_index m + 1\<rparr>;
          m2 = (if master_current_step_index m1 \<ge> nb_steps m1
                then m1\<lparr>master_current_step_index := 0\<rparr> else m1)
      in (m2, notified))"

text \<open>One iteration of the \<^verbatim>\<open>while\<close> body of \<^verbatim>\<open>_master_sequencer_loop\<close>.\<close>

definition Mixer_master_sequencer_loop_iter ::
  "rat \<Rightarrow> rat \<Rightarrow> AudioSourceMixer \<Rightarrow> AudioSourceMixer \<times> rat \<times> int list" where
  "Mixer_master_sequencer_loop_iter current_time last_step_time m =
     (if is_playing m
         \<and> float_ge (float_sub current_time last_step_time) (master_step_duration m)
      then (case Mixer_process_master_step m of
              (m', notified) \<Rightarrow> (m', current_time, notified))
      else (m, last_step_time, []))"

definition Mixer_set_steps ::
  "int \<Rightarrow> int list \<Rightarrow> AudioSourceMixer \<Rightarrow> AudioSourceMixer \<times> bool" where
  "Mixer_set_steps track_index new_steps m =
     (if track_index \<ge> int (length (tracks m)) \<or> track_index < 0 then (m, False)
      else if int (length new_steps) \<noteq> nb_steps m then (m, False)
      else (m\<lparr>tracks := (tracks m)[nat track_index :=
                  Track_set_steps new_steps (tracks m ! nat track_index)]\<rparr>, True))"

text \<open>The loop \<^verbatim>\<open>for track in self.tracks: track.set_bpm(bpm)\<close>; the first
  exception ends it, with the tracks already visited updated.\<close>

fun Mixer_set_bpm_tracks ::
  "int \<Rightarrow> AudioSourceTrack list \<Rightarrow> AudioSourceTrack list \<times> (error + unit)" where
  "Mixer_set_bpm_tracks b [] = ([], Inr ())"
| "Mixer_set_bpm_tracks b (t # ts) =
     (case Track_set_bpm b t of
        (t', Inl e) \<Rightarrow> (t' # ts, Inl e)
      | (t', Inr _) \<Rightarrow>
          (case Mixer_set_bpm_tracks b ts of (ts', r) \<Rightarrow> (t' # ts', r)))"

text \<open>\<^verbatim>\<open>set_bpm\<close>: \<open>Inr False\<close> and \<open>Inr True\<close> are the returned booleans; an
  \<open>Inl\<close> is an exception (of the mixer's \<^verbatim>\<open>_calculate_step_duration\<close> or of a
  track's \<^verbatim>\<open>set_bpm\<close>), which nothing catches, and the mixer keeps the writes made
  before it.\<close>

definition Mixer_set_bpm ::
  "int \<Rightarrow> AudioSourceMixer \<Rightarrow> AudioSourceMixer \<times> (error + bool)" where
  "Mixer_set_bpm new_bpm m =
     (if new_bpm < master_min_bpm m then (m, Inr False)
      else (let m1 = m\<lparr>master_bpm := new_bpm\<rparr>
            in case Mixer_calculate_step_duration m1 of
                 Inl e \<Rightarrow> (m1, Inl e)
               | Inr m2 \<Rightarrow>
                   (case Mixer_set_bpm_tracks new_bpm (tracks m2) of
                      (ts, Inl e) \<Rightarrow> (m2\<lparr>tracks := ts\<rparr>, Inl e)
                    | (ts, Inr _) \<Rightarrow> (m2\<lparr>tracks := ts\<rparr>, Inr True))))"

definition Mixer_audio_play :: "AudioSourceMixer \<Rightarrow> AudioSourceMixer" where
  "Mixer_audio_play m = m\<lparr>is_playing := True\<rparr>"

definition Mixer_audio_stop :: "AudioSourceMixer \<Rightarrow> AudioSourceMixer" where
  "Mixer_audio_stop m = m\<lparr>is_playing := False\<rparr>"

text \<open>\<open>k\<close> master ticks in a row; the notifications are dropped.\<close>

fun Mixer_master_ticks :: "nat \<Rightarrow> AudioSourceMixer \<Rightarrow> AudioSourceMixer" where
  "Mixer_master_ticks 0 m = m"
| "Mixer_master_ticks (Suc k) m = Mixer_master_ticks k (fst (Mixer_process_master_step m))"

section \<open>Runs of a mixer\<close>

text \<open>
  A run is a sequence of events on one mixer: the calls of its public methods, and the
  iterations of the master loop thread and of the tracks' loop threads, interleaved in
  any order. The bodies under a lock are atomic, and one loop iteration is taken as one
  event. An iteration carries the clock reading and the \<open>last_step_time\<close> of the thread
  that runs it, both chosen freely, so every schedule and every clock is covered. A loop
  body runs only while its loop condition holds.
\<close>

datatype event =
    SetSteps int "int list"
  | SetBpm int
  | AudioPlay
  | AudioStop
  | Start
  | Stop
  | MasterLoopIter rat rat
  | TrackLoopIter nat rat rat

datatype effect =
    Returned bool
  | Raised error
  | Notified int
  | Decision nat bool

fun Mixer_step :: "event \<Rightarrow> AudioSourceMixer \<Rightarrow> AudioSourceMixer \<times> effect list" where
  "Mixer_step (SetSteps i p) m =
     (case Mixer_set_steps i p m of (m', ok) \<Rightarrow> (m', [Returned ok]))"
| "Mixer_step (SetBpm b) m =
     (case Mixer_set_bpm b m of
        (m', Inl e) \<Rightarrow> (m', [Raised e])
      | (m', Inr ok) \<Rightarrow> (m', [Returned ok]))"
| "Mixer_step AudioPlay m = (Mixer_audio_play m, [])"
| "Mixer_step AudioStop m = (Mixer_audio_stop m, [])"
| "Mixer_step Start m = (Mixer_start m, [])"
| "Mixer_step Stop m = (Mixer_stop m, [])"
| "Mixer_step (MasterLoopIter now prev) m =
     (if master_is_running m \<and> \<not> master_stop_event m
      then (case Mixer_master_sequencer_loop_iter now prev m of
              (m', _, notified) \<Rightarrow> (m', map Notified notified))
      else (m, []))"
| "Mixer_step (TrackLoopIter i now prev) m =
     (if i < length (tracks m) \<and> is_running (tracks m ! i) \<and> \<not> stop_event (tracks m ! i)
      then (case Track_sequencer_loop_iter now prev (tracks m ! i) of
              Inl e \<Rightarrow> (m, [Raised e])
            | Inr (t', _, ds) \<Rightarrow> (m\<lparr>tracks := (tracks m)[i := t']\<rparr>, map (Decision i) ds))
      else (m, []))"

fun Mixer_run :: "event list \<Rightarrow> AudioSourceMixer \<Rightarrow> AudioSourceMixer \<times> effect list" where
  "Mixer_run [] m = (m, [])"
| "Mixer_run (e # es) m =
     (case Mixer_step e m of
        (m', out) \<Rightarrow> (case Mixer_run es m' of (m'', outs) \<Rightarrow> (m'', out @ outs)))"

text \<open>The trigger decisions of a run, in order, each with its track index.\<close>

fun decisions :: "effect list \<Rightarrow> (nat \<times> bool) list" where
  "decisions [] = []"
| "decisions (Decision i d # outs) = (i, d) # decisions outs"
| "decisions (_ # outs) = decisions outs"

definition is_play_stop :: "event \<Rightarrow> bool" where
  "is_play_stop e = (e = AudioPlay \<or> e = AudioStop)"

text \<open>Two mixers that differ at most in \<open>is_playing\<close> and in the master cursor, the
  one field that \<open>is_playing\<close> gates.\<close>

definition same_but_playing :: "AudioSourceMixer \<Rightarrow> AudioSourceMixer \<Rightarrow> bool" where
  "same_but_playing m m' =
     (tracks m = tracks m' \<and> master_sample_rate m = master_sample_rate m'
      \<and> master_bpm m = master_bpm m' \<and> master_min_bpm m = master_min_bpm m'
      \<and> nb_steps m = nb_steps m' \<and> master_is_running m = master_is_running m'
      \<and> master_stop_event m = master_stop_event m'
      \<and> on_current_step_changed m = on_current_step_changed m'
      \<and> master_step_duration m = master_step_duration m')"

text \<open>Every track's pattern has the master step count as its length.\<close>

definition patterns_match :: "AudioSourceMixer \<Rightarrow> bool" where
  "patterns_match m = list_all (\<lambda>t. int (length (steps t)) = nb_steps m) (tracks m)"

section \<open>The float model\<close>

lemma float_exponent_bounds:
  assumes "0 < x"
  shows "2 powi float_exponent x \<le> x" and "x < 2 powi (float_exponent x + 1)"
proof -
  have "2 powi float_exponent x \<le> x \<and> x < 2 powi (float_exponent x + 1)"
  proof (cases "1 \<le> x")
    case True
    let ?n = "\<lfloor>x\<rfloor>"
    from True have n: "0 < ?n" by simp
    from bitlen_bounds [OF n]
    have lo: "2 ^ nat (bitlen ?n - 1) \<le> ?n" and hi: "?n < 2 ^ nat (bitlen ?n)" by simp_all
    from n have b1: "1 \<le> bitlen ?n"
      using bitlen_eq_zero_iff [of ?n] bitlen_nonneg [of ?n] by linarith
    have e: "float_exponent x = bitlen ?n - 1"
      using True by (simp add: float_exponent_def)
    have "(2::rat) ^ nat (bitlen ?n - 1) = of_int (2 ^ nat (bitlen ?n - 1))" by simp
    also from lo have "\<dots> \<le> of_int ?n"
      by (simp only: of_int_le_iff)
    also have "\<dots> \<le> x" by simp
    finally have "2 ^ nat (bitlen ?n - 1) \<le> x" .
    then have A: "2 powi (bitlen ?n - 1) \<le> x"
      using b1 by (simp add: power_int_def)
    from hi have "?n + 1 \<le> 2 ^ nat (bitlen ?n)" by simp
    then have nk: "(of_int (?n + 1) :: rat) \<le> of_int (2 ^ nat (bitlen ?n))"
      by (simp only: of_int_le_iff)
    have "x < of_int (?n + 1)" by linarith
    also note nk
    also have "(of_int (2 ^ nat (bitlen ?n)) :: rat) = 2 ^ nat (bitlen ?n)" by simp
    finally have "x < 2 ^ nat (bitlen ?n)" .
    then have B: "x < 2 powi (bitlen ?n - 1 + 1)"
      using b1 by (simp add: power_int_def)
    from A B e show ?thesis by simp
  next
    case False
    let ?c = "\<lceil>1 / x\<rceil>"
    let ?k = "bitlen (?c - 1)"
    from False assms have y: "1 < 1 / x" by (simp add: field_simps)
    then have c: "0 < ?c - 1" by linarith
    from bitlen_bounds [OF c]
    have lo: "2 ^ nat (?k - 1) \<le> ?c - 1" and hi: "?c - 1 < 2 ^ nat ?k" by simp_all
    from c have k1: "1 \<le> ?k"
      using bitlen_eq_zero_iff [of "?c - 1"] bitlen_nonneg [of "?c - 1"] by linarith
    have e: "float_exponent x = - ?k"
      using False by (simp add: float_exponent_def)
    from hi have "?c \<le> 2 ^ nat ?k" by simp
    then have ck: "(of_int ?c :: rat) \<le> of_int (2 ^ nat ?k)" by (simp only: of_int_le_iff)
    have "1 / x \<le> of_int ?c" by (rule le_of_int_ceiling)
    also note ck
    also have "(of_int (2 ^ nat ?k) :: rat) = 2 ^ nat ?k" by simp
    finally have "1 / x \<le> 2 ^ nat ?k" .
    with assms have "1 \<le> 2 ^ nat ?k * x" by (simp add: field_simps)
    then have "1 / 2 ^ nat ?k \<le> x" by (simp add: field_simps)
    then have A: "2 powi (- ?k) \<le> x"
      using k1 by (simp add: power_int_def field_simps)
    have "(2::rat) ^ nat (?k - 1) = of_int (2 ^ nat (?k - 1))" by simp
    also from lo have "\<dots> \<le> of_int (?c - 1)"
      by (simp only: of_int_le_iff)
    also have "(of_int (?c - 1) :: rat) < 1 / x" by linarith
    finally have "2 ^ nat (?k - 1) < 1 / x" .
    with assms have "2 ^ nat (?k - 1) * x < 1" by (simp add: field_simps)
    then have "x < 1 / 2 ^ nat (?k - 1)" by (simp add: field_simps)
    moreover have "(2::rat) powi (- ?k + 1) = 1 / 2 ^ nat (?k - 1)"
    proof (cases "?k = 1")
      case True
      then show ?thesis by simp
    next
      case False
      with k1 have "- ?k + 1 < 0" "nat (- (- ?k + 1)) = nat (?k - 1)" by simp_all
      then show ?thesis by (simp add: power_int_def field_simps)
    qed
    ultimately have B: "x < 2 powi (- ?k + 1)" by simp
    from A B e show ?thesis by simp
  qed
  then show "2 powi float_exponent x \<le> x" and "x < 2 powi (float_exponent x + 1)"
    by simp_all
qed

lemma float_exponent_unique:
  assumes "2 powi e \<le> x" and "x < 2 powi (e + 1)"
  shows "float_exponent x = e"
proof -
  have pos: "(0::rat) < 2 powi e" by (simp add: zero_less_power_int)
  with assms have x: "0 < x" by linarith
  let ?f = "float_exponent x"
  from float_exponent_bounds [OF x]
  have f: "2 powi ?f \<le> x" "x < 2 powi (?f + 1)" by simp_all
  have "\<not> ?f < e"
  proof
    assume "?f < e"
    then have "?f + 1 \<le> e" by simp
    then have "(2::rat) powi (?f + 1) \<le> 2 powi e" by (intro power_int_increasing) simp_all
    with f(2) assms(1) show False by linarith
  qed
  moreover have "\<not> e < ?f"
  proof
    assume "e < ?f"
    then have "e + 1 \<le> ?f" by simp
    then have "(2::rat) powi (e + 1) \<le> 2 powi ?f" by (intro power_int_increasing) simp_all
    with f(1) assms(2) show False by linarith
  qed
  ultimately show ?thesis by linarith
qed

lemma round_half_even_of_int [simp]: "round_half_even (of_int n) = n"
  by (simp add: round_half_even_def)


lemma double_round_normal:
  assumes "2 powi e \<le> x" and "x < 2 powi (e + 1)" and "- 1022 \<le> e"
  shows "double_round x = of_int (round_half_even (x / 2 powi (e - 52))) * 2 powi (e - 52)"
proof -
  have "(0::rat) < 2 powi e" by (simp add: zero_less_power_int)
  with assms have x: "0 < x" by linarith
  from assms have "float_exponent x = e" by (intro float_exponent_unique)
  with x assms(3) show ?thesis
    by (simp add: double_round_def Let_def max_def)
qed

lemma double_round_neg: "double_round (- x) = - double_round x"
  by (simp add: double_round_def Let_def sgn_minus)


lemma double_round_dyadic:
  assumes "0 < k" and "k < 2 ^ 53" and "j \<le> 1022"
  shows "double_round (of_int k / 2 ^ j) = of_int k / 2 ^ j"
proof -
  let ?x = "of_int k / 2 ^ j :: rat"
  let ?e = "float_exponent ?x"
  from assms(1) have x: "0 < ?x" by simp
  from float_exponent_bounds [OF x]
  have lo: "2 powi ?e \<le> ?x" and hi: "?x < 2 powi (?e + 1)" by simp_all
  have inv: "(2::rat) powi (- int n) = 1 / 2 ^ n" for n
    by (simp add: power_int_minus_divide)
  have ej: "- int j \<le> ?e"
  proof (rule ccontr)
    assume "\<not> - int j \<le> ?e"
    then have "?e + 1 \<le> - int j" by simp
    then have "(2::rat) powi (?e + 1) \<le> 2 powi (- int j)"
      by (intro power_int_increasing) simp_all
    with hi have "?x < 1 / 2 ^ j" by (simp only: inv)
    then have "(of_int k :: rat) < 1" by (simp add: field_simps)
    with assms(1) show False by simp
  qed
  have e52: "?e + int j \<le> 52"
  proof (rule ccontr)
    assume "\<not> ?e + int j \<le> 52"
    then have "53 - int j \<le> ?e" by simp
    then have "(2::rat) powi (53 - int j) \<le> 2 powi ?e"
      by (intro power_int_increasing) simp_all
    with lo have "(2::rat) powi (53 - int j) \<le> ?x" by simp
    moreover have "(2::rat) powi (53 - int j) = 2 ^ 53 / 2 ^ j"
      by (simp add: power_int_diff)
    ultimately have "(2::rat) ^ 53 \<le> of_int k" by (simp add: field_simps)
    then have "(of_int (2 ^ 53) :: rat) \<le> of_int k" by simp
    then have "2 ^ 53 \<le> k" by (simp only: of_int_le_iff)
    with assms(2) show False by simp
  qed
  define s where "s = nat (52 - int j - ?e)"
  from e52 have "?e - 52 = - int (j + s)" by (simp add: s_def)
  then have ulp: "(2::rat) powi (?e - 52) = 1 / 2 ^ (j + s)"
    by (simp only: inv)
  have "?x / 2 powi (?e - 52) = of_int (k * 2 ^ s)"
    by (simp add: ulp power_add)
  then have "round_half_even (?x / 2 powi (?e - 52)) = k * 2 ^ s"
    by (simp only: round_half_even_of_int)
  moreover from ej assms(3) have "- 1022 \<le> ?e" by simp
  ultimately show ?thesis
    using double_round_normal [OF lo hi] by (simp add: ulp power_add)
qed

lemma double_round_small_int:
  assumes "0 < i" and "i < 2 ^ 53"
  shows "double_round (of_int i) = of_int i"
  using double_round_dyadic [OF assms, of 0] by simp

lemma int_truediv_dyadic:
  assumes "b \<noteq> 0" and "of_int a / of_int b = (of_int k / 2 ^ j :: rat)"
    and "0 < k" and "k < 2 ^ 53" and "j \<le> 1022"
  shows "int_truediv a b = Inr (of_int k / 2 ^ j)"
proof -
  let ?x = "of_int k / 2 ^ j :: rat"
  have r: "double_round ?x = ?x"
    using assms(3-5) by (rule double_round_dyadic)
  have "1 \<le> (2::rat) ^ j" by simp
  with assms(3) have "?x \<le> of_int k" by (simp add: field_simps mult_le_cancel_left1)
  also from assms(4) have "k < 2 ^ 1024" by simp
  then have "(of_int k :: rat) < of_int (2 ^ 1024)" by (simp only: of_int_less_iff)
  finally have "?x < 2 ^ 1024" by simp
  with assms(3) have "\<not> double_overflow ?x"
    by (simp add: double_overflow_def r)
  with assms(1,2) r show ?thesis by (simp add: int_truediv_def)
qed

lemma float_of_int_small:
  assumes "0 \<le> i" and "i < 2 ^ 53"
  shows "float_of_int i = Inr (of_int i)"
proof (cases "i = 0")
  case True
  then show ?thesis by (simp add: float_of_int_def double_overflow_def double_round_def)
next
  case False
  with assms have pos: "0 < i" by simp
  have r: "double_round (of_int i) = of_int i"
    using pos assms(2) by (rule double_round_small_int)
  from assms(2) have "i < 2 ^ 1024" by simp
  then have "(of_int i :: rat) < of_int (2 ^ 1024)" by (simp only: of_int_less_iff)
  with pos have "\<not> double_overflow (of_int i)"
    by (simp add: double_overflow_def r)
  with r show ?thesis by (simp add: float_of_int_def)
qed

text \<open>Two concrete quotients: \<^verbatim>\<open>15.0 / 120\<close> is exact, \<^verbatim>\<open>15.0 / 140\<close> is not.\<close>

lemma float_truediv_int_15_120: "float_truediv_int 15 120 = Inr (Finite (1 / 8))"
proof -
  have c: "float_of_int 120 = Inr 120"
    using float_of_int_small [of 120] by simp
  have "double_round (1 / 8) =
      of_int (round_half_even ((1 / 8) / 2 powi (- 3 - 52))) * 2 powi (- 3 - 52)"
    by (rule double_round_normal) simp_all
  then have r: "double_round (1 / 8) = 1 / 8"
    by (simp add: round_half_even_def)
  then have "to_double (1 / 8) = Finite (1 / 8)"
    by (simp add: to_double_def double_overflow_def)
  with c show ?thesis by (simp add: float_truediv_int_def)
qed



lemma int_of_float_nonneg:
  assumes "0 \<le> n" and "of_int n \<le> x" and "x < of_int n + 1"
  shows "int_of_float x = n"
proof -
  from assms(2,3) have "\<lfloor>x\<rfloor> = n" by (intro floor_unique) simp_all
  moreover from assms(1,2) have "0 \<le> x" by simp
  ultimately show ?thesis by (simp add: int_of_float_def)
qed

lemma py_int_truediv_samples:
  "py_int_truediv (44100 * 15) 120 = Inr 5512"
  "py_int_truediv (44100 * 15) 80 = Inr 8268"
  "py_int_truediv (44100 * 15) 60 = Inr 11025"
proof -
  have "int_truediv (44100 * 15) 120 = Inr (of_int 11025 / 2 ^ 1)"
    by (rule int_truediv_dyadic) simp_all
  moreover have "int_of_float (of_int 11025 / 2 ^ 1) = 5512"
    by (rule int_of_float_nonneg) simp_all
  ultimately show "py_int_truediv (44100 * 15) 120 = Inr 5512"
    by (simp add: py_int_truediv_def)
  have "int_truediv (44100 * 15) 80 = Inr (of_int 33075 / 2 ^ 2)"
    by (rule int_truediv_dyadic) simp_all
  moreover have "int_of_float (of_int 33075 / 2 ^ 2) = 8268"
    by (rule int_of_float_nonneg) simp_all
  ultimately show "py_int_truediv (44100 * 15) 80 = Inr 8268"
    by (simp add: py_int_truediv_def)
  have "int_truediv (44100 * 15) 60 = Inr (of_int 11025 / 2 ^ 0)"
    by (rule int_truediv_dyadic) simp_all
  moreover have "int_of_float (of_int 11025 / 2 ^ 0) = 11025"
    by (rule int_of_float_nonneg) simp_all
  ultimately show "py_int_truediv (44100 * 15) 60 = Inr 11025"
    by (simp add: py_int_truediv_def)
qed

lemma round_half_even_bounds:
  "of_int (round_half_even x) \<le> x + 1" "x - 1 \<le> of_int (round_half_even x)"
proof -
  have f: "of_int \<lfloor>x\<rfloor> \<le> x" "x < of_int \<lfloor>x\<rfloor> + 1" by linarith+
  have r: "of_int (round_half_even x) = (of_int \<lfloor>x\<rfloor> :: rat)
         \<or> of_int (round_half_even x) = (of_int \<lfloor>x\<rfloor> :: rat) + 1"
    by (simp add: round_half_even_def Let_def)
  from r f show "of_int (round_half_even x) \<le> x + 1"
    by (elim disjE) linarith+
  from r f show "x - 1 \<le> of_int (round_half_even x)"
    by (elim disjE) linarith+
qed

lemma double_round_abs_le:
  assumes "\<bar>x\<bar> \<le> 2 ^ 1022"
  shows "\<bar>double_round x\<bar> \<le> 2 ^ 1023"
proof (cases "x = 0")
  case True
  then show ?thesis by (simp add: double_round_def)
next
  case False
  let ?a = "\<bar>x\<bar>"
  let ?e = "max (float_exponent ?a) (- 1022)"
  let ?ulp = "(2::rat) powi (?e - 52)"
  let ?n = "round_half_even (?a / ?ulp)"
  from False have a: "0 < ?a" by simp
  have ulp: "0 < ?ulp" by (simp add: zero_less_power_int)
  have "?ulp \<le> 2 ^ 1022"
  proof (cases "float_exponent ?a \<le> - 1022")
    case True
    then have "?e - 52 \<le> 0" by simp
    then have "?ulp \<le> 2 powi 0" by (intro power_int_increasing) simp_all
    also have "\<dots> \<le> 2 ^ 1022" by simp
    finally show ?thesis .
  next
    case False
    then have e: "?e = float_exponent ?a" by simp
    have "?ulp \<le> 2 powi float_exponent ?a"
      unfolding e by (intro power_int_increasing) simp_all
    also have "\<dots> \<le> ?a" using float_exponent_bounds(1) [OF a] .
    also note assms
    finally show ?thesis .
  qed
  moreover have "of_int ?n * ?ulp \<le> ?a + ?ulp"
  proof -
    have "of_int ?n \<le> ?a / ?ulp + 1" by (rule round_half_even_bounds)
    with ulp have "of_int ?n * ?ulp \<le> (?a / ?ulp + 1) * ?ulp"
      by (intro mult_right_mono) simp_all
    also from ulp have "\<dots> = ?a + ?ulp" by (simp add: field_simps)
    finally show ?thesis .
  qed
  moreover have "0 \<le> of_int ?n * ?ulp"
  proof -
    from a ulp have "0 \<le> ?a / ?ulp" by simp
    then have "(- 1 :: rat) \<le> of_int ?n"
      using round_half_even_bounds(2) [of "?a / ?ulp"] by linarith
    then have "- 1 \<le> ?n" by (metis of_int_le_iff of_int_minus of_int_1)
    moreover have "?n \<noteq> - 1"
    proof
      assume "?n = - 1"
      then have "?a / ?ulp - 1 \<le> - 1"
        using round_half_even_bounds(2) [of "?a / ?ulp"] by simp
      with a ulp show False by (simp add: field_simps)
    qed
    ultimately have "0 \<le> ?n" by linarith
    with ulp show ?thesis by simp
  qed
  moreover have "\<bar>double_round x\<bar> = \<bar>of_int ?n * ?ulp\<bar>"
    using False by (simp add: double_round_def Let_def abs_mult abs_sgn_eq)
  ultimately have "\<bar>double_round x\<bar> \<le> 2 ^ 1022 + 2 ^ 1022"
    using assms by linarith
  then show ?thesis by simp
qed

lemma no_overflow_small:
  assumes "\<bar>x\<bar> \<le> 2 ^ 1022"
  shows "\<not> double_overflow x"
  using double_round_abs_le [OF assms] by (simp add: double_overflow_def)


lemma double_round_pos:
  assumes "1 \<le> x"
  shows "0 < double_round x"
proof -
  let ?e = "float_exponent x"
  let ?ulp = "(2::rat) powi (?e - 52)"
  from assms have x: "0 < x" by simp
  from float_exponent_bounds [OF x]
  have lo: "2 powi ?e \<le> x" and hi: "x < 2 powi (?e + 1)" by simp_all
  have e0: "0 \<le> ?e"
  proof (rule ccontr)
    assume "\<not> 0 \<le> ?e"
    then have "?e + 1 \<le> 0" by simp
    then have "(2::rat) powi (?e + 1) \<le> 2 powi 0" by (intro power_int_increasing) simp_all
    with hi assms show False by simp
  qed
  have ulp: "0 < ?ulp" by (simp add: zero_less_power_int)
  have "(2::rat) powi ?e = 2 powi (52 + (?e - 52))" by simp
  also have "\<dots> = 2 powi 52 * ?ulp" by (rule power_int_add) simp
  finally have "(2::rat) powi ?e = 2 ^ 52 * ?ulp" by simp
  with lo have "2 ^ 52 * ?ulp \<le> x" by simp
  with ulp have "2 ^ 52 \<le> x / ?ulp" by (simp add: field_simps)
  moreover have "(2::rat) \<le> 2 ^ 52" by simp
  ultimately have "(1::rat) \<le> of_int (round_half_even (x / ?ulp))"
    using round_half_even_bounds(2) [of "x / ?ulp"] by linarith
  with ulp have "0 < of_int (round_half_even (x / ?ulp)) * ?ulp"
    by (intro mult_pos_pos) simp_all
  with double_round_normal [OF lo hi] e0 show ?thesis by simp
qed

text \<open>For every tempo from 1 to \<open>2\<^sup>1\<^sup>0\<^sup>2\<^sup>2\<close> the expression \<^verbatim>\<open>15.0 / bpm\<close> has a
  value, and for a sample rate of that range \<^verbatim>\<open>sample_rate * 15 / bpm\<close> does not
  overflow.\<close>

lemma float_truediv_int_15_total:
  assumes "0 < b" and "b \<le> 2 ^ 1022"
  shows "\<exists>d. float_truediv_int 15 b = Inr d"
proof -
  from assms(2) have "(of_int b :: rat) \<le> of_int (2 ^ 1022)" by (simp only: of_int_le_iff)
  with assms(1) have "\<bar>of_int b :: rat\<bar> \<le> 2 ^ 1022" by simp
  then have "\<not> double_overflow (of_int b)" by (rule no_overflow_small)
  moreover from assms(1) have "0 < double_round (of_int b)"
    by (intro double_round_pos) simp
  ultimately show ?thesis
    by (simp add: float_truediv_int_def float_of_int_def)
qed

lemma samples_quotient_fits:
  assumes "0 < b" and "\<bar>a\<bar> \<le> 2 ^ 1022"
  shows "\<not> double_overflow (of_int a / of_int b)"
proof -
  from assms(1) have b1: "(1::rat) \<le> of_int b" by simp
  have "\<bar>of_int a :: rat\<bar> * 1 \<le> \<bar>of_int a\<bar> * of_int b"
    using b1 by (intro mult_left_mono) simp_all
  with b1 have "\<bar>of_int a / of_int b :: rat\<bar> \<le> \<bar>of_int a\<bar>"
    by (simp add: abs_divide field_simps)
  also from assms(2) have "\<dots> \<le> of_int (2 ^ 1022)"
    by (simp only: of_int_abs [symmetric] of_int_le_iff)
  finally have "\<bar>of_int a / of_int b :: rat\<bar> \<le> 2 ^ 1022" by simp
  then show ?thesis by (rule no_overflow_small)
qed


section \<open>Concrete constructions\<close>

lemma to_double_small_int:
  assumes "0 \<le> i" and "i < 2 ^ 53"
  shows "to_double (of_int i) = Finite (of_int i)"
  using float_of_int_small [OF assms]
  by (simp add: float_of_int_def to_double_def split: if_splits)

text \<open>The constructions used as concrete inputs below.\<close>

lemma Track_init_120:
  "Track_init wav 120 44100 60 =
     Inr \<lparr>wav_samples = wav, nb_wav_samples = (if wav \<noteq> [] then int (length wav) else 0),
          bpm = 120, min_bpm = 60, sample_rate = 44100, steps = [],
          current_step_index = 0, is_running = False, stop_event = False,
          step_nb_samples = 5512, buffer_nb_samples = 11025, step_duration = Finite (1 / 8)\<rparr>"
  "Track_init wav 120 44100 80 =
     Inr \<lparr>wav_samples = wav, nb_wav_samples = (if wav \<noteq> [] then int (length wav) else 0),
          bpm = 120, min_bpm = 80, sample_rate = 44100, steps = [],
          current_step_index = 0, is_running = False, stop_event = False,
          step_nb_samples = 5512, buffer_nb_samples = 8268, step_duration = Finite (1 / 8)\<rparr>"
  "Track_init wav 120 44100 0 =
     Inr \<lparr>wav_samples = wav, nb_wav_samples = (if wav \<noteq> [] then int (length wav) else 0),
          bpm = 120, min_bpm = 0, sample_rate = 44100, steps = [],
          current_step_index = 0, is_running = False, stop_event = False,
          step_nb_samples = 5512, buffer_nb_samples = 0, step_duration = Finite (1 / 8)\<rparr>"
  using py_int_truediv_samples float_truediv_int_15_120
  by (simp_all add: Track_init_def Track_compute_step_nb_samples_def
        Track_calculate_step_duration_def)

lemma Mixer_init_120:
  "Mixer_init [[1, 2], [3]] 120 44100 4 callback 80 =
     Inr \<lparr>tracks =
            [\<lparr>wav_samples = [1, 2], nb_wav_samples = 2, bpm = 120, min_bpm = 80,
               sample_rate = 44100, steps = [0, 0, 0, 0], current_step_index = 0,
               is_running = False, stop_event = False, step_nb_samples = 5512,
               buffer_nb_samples = 8268, step_duration = Finite (1 / 8)\<rparr>,
             \<lparr>wav_samples = [3], nb_wav_samples = 1, bpm = 120, min_bpm = 80,
               sample_rate = 44100, steps = [0, 0, 0, 0], current_step_index = 0,
               is_running = False, stop_event = False, step_nb_samples = 5512,
               buffer_nb_samples = 8268, step_duration = Finite (1 / 8)\<rparr>],
          master_sample_rate = 44100, master_bpm = 120, master_min_bpm = 80, nb_steps = 4,
          master_current_step_index = 0, is_playing = False, master_is_running = False,
          master_stop_event = False, on_current_step_changed = callback,
          master_step_duration = Finite (1 / 8)\<rparr>"
proof -
  have "replicate (nat 4) (0::int) = [0, 0, 0, 0]"
    by (simp add: numeral_eq_Suc)
  with float_truediv_int_15_120 show ?thesis
    by (simp add: Mixer_init_def Mixer_calculate_step_duration_def Track_init_120
          Track_set_steps_def Let_def)
qed

lemma Mixer_init_one_track:
  assumes "Track_init wav 120 44100 mb = Inr t"
  shows "Mixer_init [wav] 120 44100 nb callback mb =
     Inr \<lparr>tracks = [Track_set_steps (replicate (nat nb) 0) t],
          master_sample_rate = 44100, master_bpm = 120, master_min_bpm = mb, nb_steps = nb,
          master_current_step_index = 0, is_playing = False, master_is_running = False,
          master_stop_event = False, on_current_step_changed = callback,
          master_step_duration = Finite (1 / 8)\<rparr>"
  using assms float_truediv_int_15_120
  by (simp add: Mixer_init_def Mixer_calculate_step_duration_def Let_def)

lemma Mixer_init_no_track:
  "Mixer_init [] 120 44100 nb callback mb =
     Inr \<lparr>tracks = [],
          master_sample_rate = 44100, master_bpm = 120, master_min_bpm = mb, nb_steps = nb,
          master_current_step_index = 0, is_playing = False, master_is_running = False,
          master_stop_event = False, on_current_step_changed = callback,
          master_step_duration = Finite (1 / 8)\<rparr>"
  using float_truediv_int_15_120
  by (simp add: Mixer_init_def Mixer_calculate_step_duration_def Let_def)

section \<open>Properties of a single track\<close>

lemma Track_no_steps_activated_iff:
  "Track_no_steps_activated t \<longleftrightarrow> (\<forall>x \<in> set (steps t). x \<noteq> 1)"
  by (auto simp: Track_no_steps_activated_def list_ex_iff)

lemma py_getitem_in_range:
  "0 \<le> i \<Longrightarrow> i < int (length xs) \<Longrightarrow> py_getitem xs i = Inr (xs ! nat i)"
  by (simp add: py_getitem_def)

lemma Track_process_current_step_nonneg:
  assumes "0 \<le> current_step_index t"
  shows "\<exists>b. Track_process_current_step t = Inr b"
  using assms by (auto simp: Track_process_current_step_def py_getitem_in_range)

text \<open>
  Claim C9. A track whose pattern has no active flag (no entry equal to 1: in
  particular the all-zero patterns and the empty pattern) takes the decision "no
  trigger" at every cursor position, in \<^verbatim>\<open>_process_current_step\<close> and hence in every
  tick and every loop iteration.
\<close>

theorem silent_pattern_never_triggers:
  assumes "\<forall>x \<in> set (steps t). x \<noteq> 1"
  shows "Track_process_current_step t = Inr False
       \<and> Track_tick t = Inr (Track_advance_step t, False)
       \<and> (\<forall>now prev t' prev' ds.
            Track_sequencer_loop_iter now prev t = Inr (t', prev', ds) \<longrightarrow> True \<notin> set ds)"
proof -
  from assms have quiet: "Track_no_steps_activated t"
    by (simp add: Track_no_steps_activated_iff)
  then have p: "Track_process_current_step t = Inr False"
    by (simp add: Track_process_current_step_def)
  then have k: "Track_tick t = Inr (Track_advance_step t, False)"
    by (simp add: Track_tick_def)
  have "True \<notin> set ds"
    if "Track_sequencer_loop_iter now prev t = Inr (t', prev', ds)" for now prev t' prev' ds
    using that k by (auto simp: Track_sequencer_loop_iter_def split: if_splits)
  with p k show ?thesis by blast
qed

theorem silent_pattern_never_triggers_witness:
  "(case Track_init [5, 7] 120 44100 60 of
      Inl e \<Rightarrow> False
    | Inr t0 \<Rightarrow>
        Track_process_current_step
          ((Track_set_steps [0, 0, 0, 0] t0)\<lparr>current_step_index := 2\<rparr>) = Inr False)"
proof -
  obtain t0 where t0: "Track_init [5, 7] 120 44100 60 = Inr t0"
    by (simp add: Track_init_120)
  let ?t = "(Track_set_steps [0, 0, 0, 0] t0)\<lparr>current_step_index := 2\<rparr>"
  have "\<forall>x \<in> set (steps ?t). x \<noteq> 1"
    by (simp add: Track_set_steps_def Let_def)
  from silent_pattern_never_triggers [OF this] t0 show ?thesis by simp
qed

section \<open>Reachable track states and the guarded pattern read\<close>

lemma Track_init_cursor:
  "Track_init wav b rate mb = Inr t0 \<Longrightarrow> current_step_index t0 = 0"
  by (auto simp: Track_init_def Track_calculate_step_duration_def Let_def
        split: sum.splits if_splits)

lemma Track_set_bpm_cursor:
  "current_step_index (fst (Track_set_bpm b t)) = current_step_index t"
  by (auto simp: Track_set_bpm_def Track_calculate_step_duration_def Let_def
        split: sum.splits if_splits)

lemma Track_advance_step_nonneg:
  "0 \<le> current_step_index t \<Longrightarrow> 0 \<le> current_step_index (Track_advance_step t)"
  by (simp add: Track_advance_step_def Let_def)

lemma Track_apply_cursor_nonneg:
  "0 \<le> current_step_index t \<Longrightarrow> 0 \<le> current_step_index (Track_apply op t)"
  by (cases op)
     (auto simp: Track_set_steps_def Track_set_bpm_cursor Track_start_def Track_stop_def
        Track_sequencer_loop_iter_def Track_tick_def
        Track_advance_step_def Let_def split: sum.splits if_splits)

lemma Track_run_cursor_nonneg:
  "0 \<le> current_step_index t \<Longrightarrow> 0 \<le> current_step_index (Track_run ops t)"
  by (induction ops arbitrary: t) (simp_all add: Track_apply_cursor_nonneg)

text \<open>
  Claim C10. In every state a track reaches from its construction (the empty pattern
  included), by any sequence of \<^verbatim>\<open>set_steps\<close>, \<^verbatim>\<open>set_bpm\<close>, \<^verbatim>\<open>start\<close>,
  \<^verbatim>\<open>stop\<close> and loop iterations, \<^verbatim>\<open>_process_current_step\<close> and the whole tick
  return without \<^verbatim>\<open>IndexError\<close>, and whenever the guard of the pattern read holds
  the index read lies in \<open>[0, len(steps))\<close>.
\<close>

theorem pattern_read_within_bounds:
  assumes "Track_init wav b rate mb = Inr t0"
  shows "(\<exists>d. Track_process_current_step (Track_run ops t0) = Inr d)
       \<and> (\<exists>t' d. Track_tick (Track_run ops t0) = Inr (t', d))
       \<and> (\<not> Track_no_steps_activated (Track_run ops t0)
            \<and> int (length (steps (Track_run ops t0))) > current_step_index (Track_run ops t0)
          \<longrightarrow> 0 \<le> current_step_index (Track_run ops t0)
            \<and> current_step_index (Track_run ops t0) < int (length (steps (Track_run ops t0))))"
proof -
  let ?t = "Track_run ops t0"
  have nn: "0 \<le> current_step_index ?t"
    by (rule Track_run_cursor_nonneg) (simp add: Track_init_cursor [OF assms])
  from Track_process_current_step_nonneg [OF nn]
  obtain d where d: "Track_process_current_step ?t = Inr d" ..
  then have "Track_tick ?t = Inr (Track_advance_step ?t, d)"
    by (simp add: Track_tick_def)
  with d nn show ?thesis by simp
qed

theorem pattern_read_within_bounds_witness:
  "(case Track_init [3, 4] 120 44100 60 of
      Inl e \<Rightarrow> False
    | Inr t0 \<Rightarrow>
        current_step_index
          (Track_run [TSetSteps [1, 0, 1], TStart, TLoopIter 1 0, TLoopIter 2 1] t0) = 2
      \<and> Track_process_current_step
          (Track_run [TSetSteps [1, 0, 1], TStart, TLoopIter 1 0, TLoopIter 2 1] t0) = Inr True)"
proof -
  let ?ops = "[TSetSteps [1, 0, 1], TStart, TLoopIter 1 0, TLoopIter 2 1]"
  obtain t0 where t0: "Track_init [3, 4] 120 44100 60 = Inr t0"
    and d0: "step_duration t0 = Finite (1 / 8)" and s0: "steps t0 = []"
    and r0: "\<not> is_running t0"
    by (simp add: Track_init_120)
  have due: "float_ge (float_sub 1 0) (Finite (1 / 8))" "float_ge (float_sub 2 1) (Finite (1 / 8))"
    using to_double_small_int [of 1] by (simp_all add: float_sub_def)
  define t1 where "t1 = Track_start (Track_set_steps [1, 0, 1] t0)"
  have t1: "steps t1 = [1, 0, 1]" "current_step_index t1 = 0" "is_running t1" "\<not> stop_event t1"
    "step_duration t1 = Finite (1 / 8)"
    using d0 s0 r0 by (simp_all add: t1_def Track_start_def Track_set_steps_def)
  define t2 where "t2 = Track_advance_step t1"
  have k1: "Track_tick t1 = Inr (t2, True)"
    using t1 by (simp add: t2_def Track_tick_def Track_process_current_step_def
          Track_no_steps_activated_def py_getitem_def)
  have t2: "steps t2 = [1, 0, 1]" "current_step_index t2 = 1" "is_running t2" "\<not> stop_event t2"
    "step_duration t2 = Finite (1 / 8)"
    using t1 by (simp_all add: t2_def Track_advance_step_def Let_def)
  define t3 where "t3 = Track_advance_step t2"
  have k2: "Track_tick t2 = Inr (t3, False)"
    using t2 by (simp add: t3_def Track_tick_def Track_process_current_step_def
          Track_no_steps_activated_def py_getitem_def)
  have t3: "steps t3 = [1, 0, 1]" "current_step_index t3 = 2"
    using t2 by (simp_all add: t3_def Track_advance_step_def Let_def)
  have run: "Track_run ?ops t0 = t3"
    using t1 t2 k1 k2 due
    by (simp add: t1_def [symmetric] Track_sequencer_loop_iter_def)
  from pattern_read_within_bounds [OF t0, of ?ops]
  obtain d where "Track_process_current_step (Track_run ?ops t0) = Inr d" by blast
  moreover have "Track_process_current_step t3 = Inr True"
    using t3 by (simp add: Track_process_current_step_def Track_no_steps_activated_def
          py_getitem_def)
  ultimately show ?thesis using t0 run t3 by simp
qed

section \<open>Cursor wrap-around\<close>

lemma Track_tick_advance:
  "0 \<le> current_step_index t \<Longrightarrow> \<exists>d. Track_tick t = Inr (Track_advance_step t, d)"
  using Track_process_current_step_nonneg [of t] by (auto simp: Track_tick_def)

lemma Track_advance_step_mod:
  assumes "0 \<le> current_step_index t" "current_step_index t < int (length (steps t))"
  shows "Track_advance_step t =
         t\<lparr>current_step_index := (current_step_index t + 1) mod int (length (steps t))\<rparr>"
proof (cases "current_step_index t + 1 = int (length (steps t))")
  case True
  then show ?thesis by (simp add: Track_advance_step_def Let_def)
next
  case False
  with assms have "current_step_index t + 1 < int (length (steps t))" by simp
  with assms show ?thesis by (simp add: Track_advance_step_def Let_def)
qed

lemma Track_ticks_cursor:
  assumes "0 \<le> current_step_index t" "current_step_index t < int (length (steps t))"
  shows "Track_ticks k t =
         Inr (t\<lparr>current_step_index := (current_step_index t + int k) mod int (length (steps t))\<rparr>)"
  using assms
proof (induction k arbitrary: t)
  case 0
  then show ?case by simp
next
  case (Suc k)
  let ?n = "int (length (steps t))"
  let ?t1 = "t\<lparr>current_step_index := (current_step_index t + 1) mod ?n\<rparr>"
  from Suc.prems have adv: "Track_advance_step t = ?t1"
    by (rule Track_advance_step_mod)
  from Suc.prems Track_tick_advance [of t] obtain d
    where "Track_tick t = Inr (Track_advance_step t, d)" by blast
  then have step: "Track_ticks (Suc k) t = Track_ticks k ?t1"
    by (simp add: adv)
  from Suc.prems have n: "0 < ?n" by linarith
  then have "Track_ticks k ?t1 =
     Inr (?t1\<lparr>current_step_index := (current_step_index ?t1 + int k) mod int (length (steps ?t1))\<rparr>)"
    by (intro Suc.IH) simp_all
  also have "(current_step_index ?t1 + int k) mod int (length (steps ?t1))
           = (current_step_index t + int (Suc k)) mod ?n"
    by (simp add: mod_simps ac_simps)
  finally show ?case using step by simp
qed

lemma Mixer_process_master_step_mod:
  assumes "0 \<le> master_current_step_index m" "master_current_step_index m < nb_steps m"
  shows "fst (Mixer_process_master_step m) =
         m\<lparr>master_current_step_index := (master_current_step_index m + 1) mod nb_steps m\<rparr>"
proof (cases "master_current_step_index m + 1 = nb_steps m")
  case True
  then show ?thesis by (simp add: Mixer_process_master_step_def Let_def)
next
  case False
  with assms have "master_current_step_index m + 1 < nb_steps m" by simp
  with assms show ?thesis by (simp add: Mixer_process_master_step_def Let_def)
qed

lemma Mixer_master_ticks_cursor:
  assumes "0 \<le> master_current_step_index m" "master_current_step_index m < nb_steps m"
  shows "Mixer_master_ticks k m =
         m\<lparr>master_current_step_index := (master_current_step_index m + int k) mod nb_steps m\<rparr>"
  using assms
proof (induction k arbitrary: m)
  case 0
  then show ?case by simp
next
  case (Suc k)
  let ?m1 = "m\<lparr>master_current_step_index := (master_current_step_index m + 1) mod nb_steps m\<rparr>"
  from Suc.prems have "fst (Mixer_process_master_step m) = ?m1"
    by (rule Mixer_process_master_step_mod)
  then have step: "Mixer_master_ticks (Suc k) m = Mixer_master_ticks k ?m1" by simp
  from Suc.prems have n: "0 < nb_steps m" by linarith
  then have "Mixer_master_ticks k ?m1 =
     ?m1\<lparr>master_current_step_index := (master_current_step_index ?m1 + int k) mod nb_steps ?m1\<rparr>"
    by (intro Suc.IH) simp_all
  also have "(master_current_step_index ?m1 + int k) mod nb_steps ?m1
           = (master_current_step_index m + int (Suc k)) mod nb_steps m"
    by (simp add: mod_simps ac_simps)
  finally show ?case using step by simp
qed

text \<open>
  Claim C8. For every step count \<open>N \<ge> 1\<close>: from cursor 0, the cursor after \<open>k\<close> ticks
  is \<open>k mod N\<close>, so each tick moves it on by one step, \<open>N\<close> ticks bring it back to 0
  for the first time and it always lies in \<open>[0, N)\<close>. This holds for the mixer's master
  cursor (\<open>N\<close> is \<^verbatim>\<open>nb_steps\<close>) and for a track's cursor (\<open>N\<close> is the pattern
  length); the track's ticks all return, and a tick changes nothing but the cursor.
\<close>

theorem cursor_wraps_after_N_ticks:
  assumes "1 \<le> N"
  shows "(nb_steps m = N \<and> master_current_step_index m = 0 \<longrightarrow>
            (\<forall>k. Mixer_master_ticks k m = m\<lparr>master_current_step_index := int k mod N\<rparr>)
          \<and> master_current_step_index (Mixer_master_ticks (nat N) m) = 0
          \<and> (\<forall>k. 0 < k \<and> int k < N \<longrightarrow>
                 master_current_step_index (Mixer_master_ticks k m) \<noteq> 0)
          \<and> (\<forall>k. 0 \<le> master_current_step_index (Mixer_master_ticks k m)
                 \<and> master_current_step_index (Mixer_master_ticks k m) < N))
       \<and> (int (length (steps t)) = N \<and> current_step_index t = 0 \<longrightarrow>
            (\<forall>k. Track_ticks k t = Inr (t\<lparr>current_step_index := int k mod N\<rparr>))
          \<and> (\<exists>t'. Track_ticks (nat N) t = Inr t' \<and> current_step_index t' = 0)
          \<and> (\<forall>k. 0 < k \<and> int k < N \<longrightarrow>
                 (\<exists>t'. Track_ticks k t = Inr t' \<and> current_step_index t' \<noteq> 0))
          \<and> (\<forall>k. \<exists>t'. Track_ticks k t = Inr t' \<and> 0 \<le> current_step_index t'
                       \<and> current_step_index t' < N))"
proof (intro conjI impI)
  assume m: "nb_steps m = N \<and> master_current_step_index m = 0"
  with assms have eq: "Mixer_master_ticks k m =
      m\<lparr>master_current_step_index := int k mod N\<rparr>" for k
    using Mixer_master_ticks_cursor [of m k] by simp
  then show "\<forall>k. Mixer_master_ticks k m = m\<lparr>master_current_step_index := int k mod N\<rparr>"
    by blast
  from assms show "master_current_step_index (Mixer_master_ticks (nat N) m) = 0"
    by (simp add: eq)
  show "\<forall>k. 0 < k \<and> int k < N \<longrightarrow> master_current_step_index (Mixer_master_ticks k m) \<noteq> 0"
    by (simp add: eq)
  from assms show "\<forall>k. 0 \<le> master_current_step_index (Mixer_master_ticks k m)
        \<and> master_current_step_index (Mixer_master_ticks k m) < N"
    by (simp add: eq)
next
  assume t: "int (length (steps t)) = N \<and> current_step_index t = 0"
  with assms have eq: "Track_ticks k t = Inr (t\<lparr>current_step_index := int k mod N\<rparr>)" for k
    using Track_ticks_cursor [of t k] by simp
  then show "\<forall>k. Track_ticks k t = Inr (t\<lparr>current_step_index := int k mod N\<rparr>)"
    by blast
  from assms show "\<exists>t'. Track_ticks (nat N) t = Inr t' \<and> current_step_index t' = 0"
    by (simp add: eq)
  show "\<forall>k. 0 < k \<and> int k < N \<longrightarrow>
        (\<exists>t'. Track_ticks k t = Inr t' \<and> current_step_index t' \<noteq> 0)"
    by (simp add: eq)
  from assms show "\<forall>k. \<exists>t'. Track_ticks k t = Inr t' \<and> 0 \<le> current_step_index t'
        \<and> current_step_index t' < N"
    by (simp add: eq)
qed

theorem cursor_wraps_after_N_ticks_witness:
  "(case Mixer_init [[1, 2], [3]] 120 44100 4 True 80 of
      Inl e \<Rightarrow> False
    | Inr m \<Rightarrow>
        map (\<lambda>k. master_current_step_index (Mixer_master_ticks k m)) [1, 2, 3, 4, 5]
          = [1, 2, 3, 0, 1])
   \<and> (case Track_init [1, 2] 120 44100 60 of
      Inl e \<Rightarrow> False
    | Inr t0 \<Rightarrow>
        map (\<lambda>k. map_sum id current_step_index (Track_ticks k (Track_set_steps [1, 0, 1, 0] t0)))
            [1, 2, 3, 4, 5]
          = [Inr 1, Inr 2, Inr 3, Inr 0, Inr 1])"
proof -
  obtain m where m: "Mixer_init [[1, 2], [3]] 120 44100 4 True 80 = Inr m"
    and m4: "nb_steps m = 4 \<and> master_current_step_index m = 0"
    by (simp add: Mixer_init_120)
  obtain t0 where t0: "Track_init [1, 2] 120 44100 60 = Inr t0"
    and s0: "steps t0 = []" "current_step_index t0 = 0"
    by (simp add: Track_init_120)
  let ?t = "Track_set_steps [1, 0, 1, 0] t0"
  have N: "(1::int) \<le> 4" by simp
  have t: "int (length (steps ?t)) = 4 \<and> current_step_index ?t = 0"
    using s0 by (simp add: Track_set_steps_def Let_def)
  from cursor_wraps_after_N_ticks [OF N, of m ?t] m4 t
  have a: "Mixer_master_ticks k m = m\<lparr>master_current_step_index := int k mod 4\<rparr>"
    and b: "Track_ticks k ?t = Inr (?t\<lparr>current_step_index := int k mod 4\<rparr>)" for k
    by blast+
  show ?thesis by (simp add: m t0 a b)
qed

section \<open>The master tick\<close>

text \<open>
  Claim C1, as amended. For every step count \<open>N \<ge> 2\<close> and every master cursor
  \<open>s\<close> in \<open>[0, N)\<close>, a master loop iteration that is due while \<^verbatim>\<open>is_playing\<close>
  holds calls the notification callback exactly once, with \<open>(s - 2) mod N\<close>: with
  \<open>N - 2\<close> at \<open>s = 0\<close>, \<open>N - 1\<close> at \<open>s = 1\<close> and \<open>0\<close> at \<open>s = 2\<close>.
\<close>

theorem display_index_lags_two_steps:
  assumes "2 \<le> nb_steps m"
    and "0 \<le> master_current_step_index m" and "master_current_step_index m < nb_steps m"
    and "on_current_step_changed m" and "is_playing m"
    and "float_ge (float_sub current_time last_step_time) (master_step_duration m)"
  shows "snd (snd (Mixer_master_sequencer_loop_iter current_time last_step_time m)) =
           [(master_current_step_index m - 2) mod nb_steps m]
       \<and> (master_current_step_index m = 0 \<longrightarrow>
            snd (snd (Mixer_master_sequencer_loop_iter current_time last_step_time m)) =
              [nb_steps m - 2])
       \<and> (master_current_step_index m = 1 \<longrightarrow>
            snd (snd (Mixer_master_sequencer_loop_iter current_time last_step_time m)) =
              [nb_steps m - 1])
       \<and> (master_current_step_index m = 2 \<longrightarrow>
            snd (snd (Mixer_master_sequencer_loop_iter current_time last_step_time m)) = [0])"
proof -
  let ?s = "master_current_step_index m"
  let ?d = "if ?s - 2 < 0 then ?s - 2 + nb_steps m else ?s - 2"
  from assms have out:
    "snd (snd (Mixer_master_sequencer_loop_iter current_time last_step_time m)) = [?d]"
    by (simp add: Mixer_master_sequencer_loop_iter_def Mixer_process_master_step_def
          Let_def split: prod.splits)
  have "?d = (?s - 2) mod nb_steps m"
  proof (cases "?s - 2 < 0")
    case True
    with assms have "0 \<le> ?s - 2 + nb_steps m" "?s - 2 + nb_steps m < nb_steps m" by simp_all
    then have "(?s - 2 + nb_steps m) mod nb_steps m = ?s - 2 + nb_steps m"
      by (rule mod_pos_pos_trivial)
    with True show ?thesis by simp
  next
    case False
    with assms have "(?s - 2) mod nb_steps m = ?s - 2"
      by (intro mod_pos_pos_trivial) simp_all
    with False show ?thesis by simp
  qed
  with out show ?thesis by auto
qed

theorem display_index_lags_two_steps_witness:
  "(case Mixer_init [[1, 2], [3]] 120 44100 4 True 80 of
      Inl e \<Rightarrow> False
    | Inr m \<Rightarrow>
        snd (snd (Mixer_master_sequencer_loop_iter 1 0 (Mixer_audio_play m))) = [2])"
proof -
  obtain m0 where m0: "Mixer_init [[1, 2], [3]] 120 44100 4 True 80 = Inr m0"
    and f0: "nb_steps m0 = 4" "master_current_step_index m0 = 0"
      "on_current_step_changed m0" "master_step_duration m0 = Finite (1 / 8)"
    by (simp add: Mixer_init_120)
  let ?m = "Mixer_audio_play m0"
  have f: "nb_steps ?m = 4" "master_current_step_index ?m = 0"
    "on_current_step_changed ?m" "is_playing ?m" "master_step_duration ?m = Finite (1 / 8)"
    using f0 by (simp_all add: Mixer_audio_play_def)
  have due: "float_ge (float_sub 1 0) (master_step_duration ?m)"
    using to_double_small_int [of 1] f(5) by (simp add: float_sub_def)
  have "snd (snd (Mixer_master_sequencer_loop_iter 1 0 ?m)) =
          [(master_current_step_index ?m - 2) mod nb_steps ?m]"
    using display_index_lags_two_steps [of ?m 1 0] f due by simp
  with f m0 show ?thesis by simp
qed

text \<open>
  With a single step the code adds \<^verbatim>\<open>nb_steps\<close> once and reports \<open>-1\<close>, which is
  not \<open>(0 - 2) mod 1 = 0\<close>: claim C1 does not hold at \<open>N = 1\<close>.
\<close>

theorem display_index_one_step_counterexample:
  "(case Mixer_init [] 120 44100 1 True 80 of
      Inl e \<Rightarrow> False
    | Inr m \<Rightarrow>
        nb_steps (Mixer_audio_play m) = 1
      \<and> master_current_step_index (Mixer_audio_play m) = 0
      \<and> is_playing (Mixer_audio_play m)
      \<and> on_current_step_changed (Mixer_audio_play m)
      \<and> float_ge (float_sub 1 0) (master_step_duration (Mixer_audio_play m))
      \<and> snd (snd (Mixer_master_sequencer_loop_iter 1 0 (Mixer_audio_play m))) = [- 1])
   \<and> [- 1] \<noteq> [(0 - 2) mod (1 :: int)]"
proof -
  have "float_ge (float_sub 1 0) (Finite (1 / 8))"
    using to_double_small_int [of 1] by (simp add: float_sub_def)
  then show ?thesis
    by (simp add: Mixer_init_no_track Mixer_master_sequencer_loop_iter_def
          Mixer_process_master_step_def Mixer_audio_play_def Let_def)
qed



section \<open>Tempo and pattern assignment\<close>





theorem set_bpm_nonpositive_counterexample:
  "(case Mixer_init [[1, 2]] 120 44100 4 True 0 of
      Inl e \<Rightarrow> False
    | Inr m \<Rightarrow>
        master_min_bpm m \<le> 0
      \<and> snd (Mixer_set_bpm 0 m) = Inl ValueError
      \<and> master_bpm (fst (Mixer_set_bpm 0 m)) = 0
      \<and> map bpm (tracks (fst (Mixer_set_bpm 0 m))) = [120])"
  by (simp add: Mixer_init_one_track [OF Track_init_120(3)] Mixer_set_bpm_def Track_set_bpm_def
        Mixer_calculate_step_duration_def Track_set_steps_def Let_def)


text \<open>
  Claim C4. The mixer's \<^verbatim>\<open>set_steps\<close> returns \<^verbatim>\<open>False\<close> and changes nothing when
  the track index is out of bounds or the pattern's length differs from
  \<^verbatim>\<open>nb_steps\<close>; otherwise it returns \<^verbatim>\<open>True\<close>, the indexed track holds the new
  pattern and every other track is exactly as before.
\<close>

theorem set_steps_validates_index_and_length:
  "(track_index < 0 \<or> track_index \<ge> int (length (tracks m))
      \<or> int (length pattern) \<noteq> nb_steps m
    \<longrightarrow> Mixer_set_steps track_index pattern m = (m, False))
 \<and> (0 \<le> track_index \<and> track_index < int (length (tracks m))
      \<and> int (length pattern) = nb_steps m
    \<longrightarrow> snd (Mixer_set_steps track_index pattern m) = True
      \<and> length (tracks (fst (Mixer_set_steps track_index pattern m))) = length (tracks m)
      \<and> steps (tracks (fst (Mixer_set_steps track_index pattern m)) ! nat track_index) = pattern
      \<and> (\<forall>j. j < length (tracks m) \<and> j \<noteq> nat track_index \<longrightarrow>
            tracks (fst (Mixer_set_steps track_index pattern m)) ! j = tracks m ! j))"
  by (auto simp: Mixer_set_steps_def Track_set_steps_def Let_def)

theorem set_steps_validates_index_and_length_witness:
  "(case Mixer_init [[1, 2], [3]] 120 44100 4 True 80 of
      Inl e \<Rightarrow> False
    | Inr m \<Rightarrow>
        Mixer_set_steps 0 [1, 0, 1] m = (m, False)
      \<and> snd (Mixer_set_steps 1 [1, 0, 1, 0] m) = True
      \<and> map steps (tracks (fst (Mixer_set_steps 1 [1, 0, 1, 0] m)))
          = [[0, 0, 0, 0], [1, 0, 1, 0]])"
proof -
  obtain m where m: "Mixer_init [[1, 2], [3]] 120 44100 4 True 80 = Inr m"
    and f: "nb_steps m = 4" "length (tracks m) = 2"
      "map steps (tracks m) = [[0, 0, 0, 0], [0, 0, 0, 0]]"
    by (simp add: Mixer_init_120)
  have bad: "Mixer_set_steps 0 [1, 0, 1] m = (m, False)"
    using set_steps_validates_index_and_length [of 0 m "[1, 0, 1]"] f by simp
  have good: "snd (Mixer_set_steps 1 [1, 0, 1, 0] m) = True"
    "length (tracks (fst (Mixer_set_steps 1 [1, 0, 1, 0] m))) = 2"
    "steps (tracks (fst (Mixer_set_steps 1 [1, 0, 1, 0] m)) ! 1) = [1, 0, 1, 0]"
    "tracks (fst (Mixer_set_steps 1 [1, 0, 1, 0] m)) ! 0 = tracks m ! 0"
    using set_steps_validates_index_and_length [of 1 m "[1, 0, 1, 0]"] f by simp_all
  from good(2) obtain x y where xy: "tracks (fst (Mixer_set_steps 1 [1, 0, 1, 0] m)) = [x, y]"
    by (auto simp: length_Suc_conv numeral_2_eq_2)
  from f(2) obtain u v where uv: "tracks m = [u, v]"
    by (auto simp: length_Suc_conv numeral_2_eq_2)
  from good(3,4) xy uv f(3)
  have "map steps (tracks (fst (Mixer_set_steps 1 [1, 0, 1, 0] m))) = [[0, 0, 0, 0], [1, 0, 1, 0]]"
    by simp
  with bad good(1) m show ?thesis by simp
qed

text \<open>
  Claim C5. For \<open>bpm \<le> 0\<close> the track's \<^verbatim>\<open>set_bpm\<close> raises \<^verbatim>\<open>ValueError\<close> and
  the track is unchanged (tempo, step duration and samples per step included); for
  \<open>bpm < min_bpm\<close> the mixer's \<^verbatim>\<open>set_bpm\<close> returns \<^verbatim>\<open>False\<close> and the mixer,
  with all its tracks, is unchanged.
\<close>

theorem rejected_tempo_changes_nothing:
  "(b \<le> 0 \<longrightarrow> Track_set_bpm b t = (t, Inl ValueError))
 \<and> (b < master_min_bpm m \<longrightarrow> Mixer_set_bpm b m = (m, Inr False))"
  by (simp add: Track_set_bpm_def Mixer_set_bpm_def)

theorem rejected_tempo_changes_nothing_witness:
  "(case Track_init [1, 2] 120 44100 60 of
      Inl e \<Rightarrow> False
    | Inr t \<Rightarrow> Track_set_bpm 0 t = (t, Inl ValueError))
   \<and> (case Mixer_init [[1, 2], [3]] 120 44100 4 True 80 of
      Inl e \<Rightarrow> False
    | Inr m \<Rightarrow> Mixer_set_bpm 79 m = (m, Inr False))"
proof -
  obtain t where t: "Track_init [1, 2] 120 44100 60 = Inr t"
    by (simp add: Track_init_120)
  obtain m where m: "Mixer_init [[1, 2], [3]] 120 44100 4 True 80 = Inr m"
    and mb: "79 < master_min_bpm m"
    by (simp add: Mixer_init_120)
  from rejected_tempo_changes_nothing [of 0 t m]
  have a: "Track_set_bpm 0 t = (t, Inl ValueError)" by simp
  from rejected_tempo_changes_nothing [of 79 t m] mb
  have "Mixer_set_bpm 79 m = (m, Inr False)" by simp
  with a t m show ?thesis by simp
qed

section \<open>Pattern lengths along a run\<close>

lemma Track_set_bpm_steps: "steps (fst (Track_set_bpm b t)) = steps t"
  by (auto simp: Track_set_bpm_def Track_calculate_step_duration_def Let_def
        split: sum.splits if_splits)

lemma Mixer_calculate_step_duration_keeps:
  assumes "Mixer_calculate_step_duration m = Inr m'"
  shows "tracks m' = tracks m" and "nb_steps m' = nb_steps m"
    and "master_bpm m' = master_bpm m" and "master_min_bpm m' = master_min_bpm m"
    and "master_sample_rate m' = master_sample_rate m"
    and "master_current_step_index m' = master_current_step_index m"
    and "is_playing m' = is_playing m" and "master_is_running m' = master_is_running m"
    and "master_stop_event m' = master_stop_event m"
    and "on_current_step_changed m' = on_current_step_changed m"
  using assms
  by (auto simp: Mixer_calculate_step_duration_def split: if_splits sum.splits)

lemma Mixer_set_bpm_tracks_steps:
  "map steps (fst (Mixer_set_bpm_tracks b ts)) = map steps ts"
proof (induction ts)
  case Nil
  show ?case by simp
next
  case (Cons t ts)
  have "steps (fst (Track_set_bpm b t)) = steps t"
    by (rule Track_set_bpm_steps)
  with Cons show ?case
    by (auto split: prod.splits sum.splits)
qed

lemma patterns_match_map_steps:
  "patterns_match m \<longleftrightarrow> (\<forall>p \<in> set (map steps (tracks m)). int (length p) = nb_steps m)"
  by (auto simp: patterns_match_def list_all_iff)

lemma patterns_match_cong:
  assumes "map steps (tracks m') = map steps (tracks m)" and "nb_steps m' = nb_steps m"
  shows "patterns_match m' = patterns_match m"
  using assms by (simp add: patterns_match_map_steps)

lemma Track_sequencer_loop_iter_steps:
  "Track_sequencer_loop_iter now prev t = Inr (t', prev', ds) \<Longrightarrow> steps t' = steps t"
  by (auto simp: Track_sequencer_loop_iter_def Track_tick_def Track_advance_step_def Let_def
        split: if_splits sum.splits)

lemma Mixer_set_bpm_keeps:
  "map steps (tracks (fst (Mixer_set_bpm b m))) = map steps (tracks m)"
  "nb_steps (fst (Mixer_set_bpm b m)) = nb_steps m"
proof -
  have "map steps (tracks (fst (Mixer_set_bpm b m))) = map steps (tracks m)
      \<and> nb_steps (fst (Mixer_set_bpm b m)) = nb_steps m"
  proof (cases "b < master_min_bpm m")
    case True
    then show ?thesis by (simp add: Mixer_set_bpm_def)
  next
    case False
    show ?thesis
    proof (cases "Mixer_calculate_step_duration (m\<lparr>master_bpm := b\<rparr>)")
      case (Inl err)
      with False show ?thesis by (simp add: Mixer_set_bpm_def)
    next
      case (Inr m2)
      from Mixer_calculate_step_duration_keeps(1,2) [OF Inr]
      have k: "tracks m2 = tracks m" "nb_steps m2 = nb_steps m" by simp_all
      from False Inr have "fst (Mixer_set_bpm b m) =
          m2\<lparr>tracks := fst (Mixer_set_bpm_tracks b (tracks m2))\<rparr>"
        by (simp add: Mixer_set_bpm_def split: prod.splits sum.splits)
      with k Mixer_set_bpm_tracks_steps [of b "tracks m"] show ?thesis by simp
    qed
  qed
  then show "map steps (tracks (fst (Mixer_set_bpm b m))) = map steps (tracks m)"
    and "nb_steps (fst (Mixer_set_bpm b m)) = nb_steps m" by simp_all
qed

lemma Mixer_run_Cons_fst:
  "fst (Mixer_run (e # es) m) = fst (Mixer_run es (fst (Mixer_step e m)))"
  by (simp split: prod.splits)

lemma Mixer_run_Cons_snd:
  "snd (Mixer_run (e # es) m) = snd (Mixer_step e m) @ snd (Mixer_run es (fst (Mixer_step e m)))"
  by (simp split: prod.splits)

lemma Mixer_step_SetSteps_fst:
  "fst (Mixer_step (SetSteps i p) m) = fst (Mixer_set_steps i p m)"
  by (simp split: prod.splits)

lemma Mixer_step_SetBpm_fst:
  "fst (Mixer_step (SetBpm b) m) = fst (Mixer_set_bpm b m)"
  by (simp split: prod.splits sum.splits)

lemma Mixer_step_nb_steps: "nb_steps (fst (Mixer_step e m)) = nb_steps m"
proof (cases e)
  case (SetBpm b)
  then show ?thesis using Mixer_set_bpm_keeps(2) [of b m]
    by (simp only: Mixer_step_SetBpm_fst)
qed (auto simp: Mixer_set_steps_def Mixer_audio_play_def Mixer_audio_stop_def Mixer_start_def
       Mixer_stop_def Mixer_master_sequencer_loop_iter_def Mixer_process_master_step_def Let_def
       split: prod.splits sum.splits)

lemma Mixer_step_patterns_match:
  assumes "patterns_match m"
  shows "patterns_match (fst (Mixer_step e m))"
proof (cases e)
  case (SetSteps i p)
  show ?thesis
  proof (cases "snd (Mixer_set_steps i p m)")
    case False
    then have "fst (Mixer_set_steps i p m) = m"
      by (auto simp: Mixer_set_steps_def split: if_splits)
    with assms SetSteps show ?thesis by (simp only: Mixer_step_SetSteps_fst)
  next
    case True
    then have ok: "0 \<le> i" "i < int (length (tracks m))" "int (length p) = nb_steps m"
      and upd: "fst (Mixer_set_steps i p m) =
        m\<lparr>tracks := (tracks m)[nat i := Track_set_steps p (tracks m ! nat i)]\<rparr>"
      by (auto simp: Mixer_set_steps_def split: if_splits)
    have "steps (Track_set_steps p (tracks m ! nat i)) = p"
      by (simp add: Track_set_steps_def Let_def)
    with assms ok have "patterns_match (m\<lparr>tracks := (tracks m)[nat i := Track_set_steps p (tracks m ! nat i)]\<rparr>)"
      by (auto simp: patterns_match_def list_all_iff dest!: set_update_subset_insert [THEN subsetD])
    with upd SetSteps show ?thesis by (simp only: Mixer_step_SetSteps_fst)
  qed
next
  case (SetBpm b)
  have "patterns_match (fst (Mixer_set_bpm b m)) = patterns_match m"
    by (rule patterns_match_cong) (rule Mixer_set_bpm_keeps)+
  with assms SetBpm show ?thesis by (simp only: Mixer_step_SetBpm_fst)
next
  case AudioPlay
  with assms show ?thesis by (simp add: Mixer_audio_play_def patterns_match_def)
next
  case AudioStop
  with assms show ?thesis by (simp add: Mixer_audio_stop_def patterns_match_def)
next
  case Start
  have "patterns_match (Mixer_start m) = patterns_match m"
    by (rule patterns_match_cong) (simp_all add: Mixer_start_def Track_start_def)
  with assms Start show ?thesis by simp
next
  case Stop
  have "patterns_match (Mixer_stop m) = patterns_match m"
    by (rule patterns_match_cong) (simp_all add: Mixer_stop_def Track_stop_def)
  with assms Stop show ?thesis by simp
next
  case (MasterLoopIter now prev)
  with assms show ?thesis
    by (simp add: Mixer_master_sequencer_loop_iter_def Mixer_process_master_step_def
          patterns_match_def Let_def split: prod.splits)
next
  case (TrackLoopIter i now prev)
  show ?thesis
  proof (cases "i < length (tracks m) \<and> is_running (tracks m ! i) \<and> \<not> stop_event (tracks m ! i)")
    case False
    with assms TrackLoopIter show ?thesis by auto
  next
    case True
    show ?thesis
    proof (cases "Track_sequencer_loop_iter now prev (tracks m ! i)")
      case (Inl err)
      with assms TrackLoopIter True show ?thesis by simp
    next
      case (Inr r)
      then obtain t' prev' ds where r: "Track_sequencer_loop_iter now prev (tracks m ! i) = Inr (t', prev', ds)"
        by (cases r) auto
      then have st: "steps t' = steps (tracks m ! i)"
        by (rule Track_sequencer_loop_iter_steps)
      from True have "(tracks m)[i := t'] ! i = t'" by simp
      have "map steps ((tracks m)[i := t']) = map steps (tracks m)"
        using True st by (simp add: map_update list_update_same_conv)
      then have "patterns_match (m\<lparr>tracks := (tracks m)[i := t']\<rparr>) = patterns_match m"
        by (intro patterns_match_cong) simp_all
      with assms TrackLoopIter True r show ?thesis by simp
    qed
  qed
qed

lemma Mixer_run_patterns_match:
  "patterns_match m \<Longrightarrow> patterns_match (fst (Mixer_run es m))"
proof (induction es arbitrary: m)
  case Nil
  then show ?case by simp
next
  case (Cons e es)
  from Cons.prems have "patterns_match (fst (Mixer_step e m))"
    by (rule Mixer_step_patterns_match)
  then have "patterns_match (fst (Mixer_run es (fst (Mixer_step e m))))"
    by (rule Cons.IH)
  then show ?case by (simp only: Mixer_run_Cons_fst)
qed

lemma Mixer_run_nb_steps: "nb_steps (fst (Mixer_run es m)) = nb_steps m"
proof (induction es arbitrary: m)
  case Nil
  show ?case by simp
next
  case (Cons e es)
  have "nb_steps (fst (Mixer_run es (fst (Mixer_step e m)))) = nb_steps (fst (Mixer_step e m))"
    by (rule Cons.IH)
  then show ?case by (simp only: Mixer_run_Cons_fst Mixer_step_nb_steps)
qed

lemma Mixer_initialize_tracks_patterns:
  assumes "list_all (\<lambda>t. length (steps t) = nat nb) (tracks m)"
  shows "list_all (\<lambda>t. length (steps t) = nat nb)
           (tracks (Mixer_initialize_tracks all_wav_samples b rate nb mb m))
       \<and> nb_steps (Mixer_initialize_tracks all_wav_samples b rate nb mb m) = nb_steps m"
  using assms
proof (induction all_wav_samples arbitrary: m)
  case Nil
  then show ?case by simp
next
  case (Cons wav rest)
  show ?case
  proof (cases "Track_init wav b rate mb")
    case (Inl err)
    with Cons show ?thesis by simp
  next
    case (Inr track)
    let ?m1 = "m\<lparr>tracks := tracks m @ [Track_set_steps (replicate (nat nb) 0) track]\<rparr>"
    from Cons.prems have "list_all (\<lambda>t. length (steps t) = nat nb) (tracks ?m1)"
      by (simp add: Track_set_steps_def Let_def)
    from Cons.IH [OF this] Inr show ?thesis by (simp add: Let_def)
  qed
qed

lemma Mixer_init_patterns_match:
  assumes "0 \<le> nb" and "Mixer_init all_wav_samples b rate nb callback mb = Inr m0"
  shows "patterns_match m0" and "nb_steps m0 = nb"
proof -
  let ?m0 = "\<lparr>tracks = [], master_sample_rate = rate, master_bpm = b,
                master_min_bpm = mb, nb_steps = nb, master_current_step_index = 0,
                is_playing = False, master_is_running = False, master_stop_event = False,
                on_current_step_changed = callback, master_step_duration = Finite 0\<rparr>"
  let ?m1 = "Mixer_initialize_tracks all_wav_samples b rate nb mb ?m0"
  from assms(2) have c: "Mixer_calculate_step_duration ?m1 = Inr m0"
    by (simp add: Mixer_init_def Let_def)
  have "list_all (\<lambda>t. length (steps t) = nat nb) (tracks ?m0)" by simp
  from Mixer_initialize_tracks_patterns [OF this]
  have p: "list_all (\<lambda>t. length (steps t) = nat nb) (tracks ?m1)" and n: "nb_steps ?m1 = nb"
    by simp_all
  from Mixer_calculate_step_duration_keeps(1,2) [OF c] n
  have k: "tracks m0 = tracks ?m1" "nb_steps m0 = nb" by simp_all
  from p assms(1) have "list_all (\<lambda>t. int (length (steps t)) = nb) (tracks ?m1)"
    by (simp add: list_all_iff)
  with k show "patterns_match m0" by (simp add: patterns_match_def)
  from k show "nb_steps m0 = nb" by simp
qed

text \<open>
  Claim C6. For a mixer constructed with a step count \<open>nb_steps \<ge> 0\<close> (whatever the
  sample buffers, tempo, sample rate and tempo floor, and whichever tracks the
  constructor could create), in every state reached by any sequence of
  \<^verbatim>\<open>set_steps\<close>, \<^verbatim>\<open>set_bpm\<close>, \<^verbatim>\<open>audio_play\<close>, \<^verbatim>\<open>audio_stop\<close>, \<^verbatim>\<open>start\<close>,
  \<^verbatim>\<open>stop\<close> and loop iterations of the master and of the tracks, every track's
  pattern has length \<^verbatim>\<open>nb_steps\<close>, and \<^verbatim>\<open>nb_steps\<close> is the value given at
  construction.
\<close>

theorem pattern_length_invariant:
  assumes "0 \<le> nb" and "Mixer_init all_wav_samples b rate nb callback mb = Inr m0"
  shows "patterns_match (fst (Mixer_run es m0)) \<and> nb_steps (fst (Mixer_run es m0)) = nb"
  using Mixer_run_patterns_match [OF Mixer_init_patterns_match(1) [OF assms]]
    Mixer_init_patterns_match(2) [OF assms]
  by (simp add: Mixer_run_nb_steps)

theorem pattern_length_invariant_witness:
  "(case Mixer_init [[1, 2], [3]] 120 44100 4 True 80 of
      Inl e \<Rightarrow> False
    | Inr m \<Rightarrow>
        patterns_match (fst (Mixer_run
          [Start, SetSteps 0 [1, 0, 1, 0], SetSteps 1 [1, 1], AudioPlay, TrackLoopIter 0 1 0,
           MasterLoopIter 1 0, SetBpm 90, Stop] m)))"
proof -
  obtain m where m: "Mixer_init [[1, 2], [3]] 120 44100 4 True 80 = Inr m"
    by (simp add: Mixer_init_120)
  have "(0::int) \<le> 4" by simp
  from pattern_length_invariant [OF this m]
  have "patterns_match (fst (Mixer_run
          [Start, SetSteps 0 [1, 0, 1, 0], SetSteps 1 [1, 1], AudioPlay, TrackLoopIter 0 1 0,
           MasterLoopIter 1 0, SetBpm 90, Stop] m))" ..
  then show ?thesis by (simp only: m sum.case)
qed

text \<open>
  The constructor does not check its step count: given \<open>-1\<close> it still builds the
  mixer, whose track has the pattern \<^verbatim>\<open>(0,) * -1\<close>, the empty tuple. A negative number
  is not a count of steps, and the invariant above is about step counts.
\<close>

lemma negative_step_count_is_not_checked:
  "(case Mixer_init [[1, 2]] 120 44100 (- 1) True 80 of
      Inl e \<Rightarrow> False
    | Inr m \<Rightarrow> nb_steps m = - 1 \<and> map steps (tracks m) = [[]])"
  by (simp add: Mixer_init_one_track [OF Track_init_120(2)] Track_set_steps_def)

section \<open>Trigger decisions do not depend on is_playing\<close>

lemma decisions_append: "decisions (xs @ ys) = decisions xs @ decisions ys"
  by (induction xs rule: decisions.induct) simp_all

lemma decisions_map_Notified: "decisions (map Notified ns) = []"
  by (induction ns) simp_all

lemma same_but_playing_refl: "same_but_playing m m"
  by (simp add: same_but_playing_def)

lemma same_but_playing_sym: "same_but_playing m m' \<Longrightarrow> same_but_playing m' m"
  by (simp add: same_but_playing_def)

lemma same_but_playing_trans:
  "same_but_playing m m' \<Longrightarrow> same_but_playing m' m'' \<Longrightarrow> same_but_playing m m''"
  by (simp add: same_but_playing_def)

lemma play_stop_step:
  assumes "is_play_stop e"
  shows "same_but_playing (fst (Mixer_step e m)) m" and "decisions (snd (Mixer_step e m)) = []"
  using assms
  by (auto simp: is_play_stop_def same_but_playing_def Mixer_audio_play_def Mixer_audio_stop_def)

lemma Mixer_set_bpm_same:
  assumes "same_but_playing m m'"
  shows "same_but_playing (fst (Mixer_set_bpm b m)) (fst (Mixer_set_bpm b m'))"
  using assms
  by (auto simp: same_but_playing_def Mixer_set_bpm_def Mixer_calculate_step_duration_def Let_def
        split: prod.splits sum.splits if_splits)

lemma other_step:
  assumes "same_but_playing m m'" and "\<not> is_play_stop e"
  shows "same_but_playing (fst (Mixer_step e m)) (fst (Mixer_step e m'))
       \<and> decisions (snd (Mixer_step e m)) = decisions (snd (Mixer_step e m'))"
proof (cases e)
  case (SetSteps i p)
  with assms(1) show ?thesis
    by (auto simp: same_but_playing_def Mixer_set_steps_def split: prod.splits)
next
  case (SetBpm b)
  have f: "fst (Mixer_step (SetBpm b) x) = fst (Mixer_set_bpm b x)" for x
    by (simp split: prod.splits sum.splits)
  have d: "decisions (snd (Mixer_step (SetBpm b) x)) = []" for x
    by (simp split: prod.splits sum.splits)
  from Mixer_set_bpm_same [OF assms(1)] SetBpm show ?thesis
    by (simp only: f d simp_thms)
next
  case AudioPlay
  with assms(2) show ?thesis by (simp add: is_play_stop_def)
next
  case AudioStop
  with assms(2) show ?thesis by (simp add: is_play_stop_def)
next
  case Start
  with assms(1) show ?thesis by (auto simp: same_but_playing_def Mixer_start_def)
next
  case Stop
  with assms(1) show ?thesis by (auto simp: same_but_playing_def Mixer_stop_def)
next
  case (MasterLoopIter now prev)
  with assms(1) show ?thesis
    by (auto simp: same_but_playing_def Mixer_master_sequencer_loop_iter_def
          Mixer_process_master_step_def decisions_map_Notified Let_def split: prod.splits)
next
  case (TrackLoopIter i now prev)
  with assms(1) show ?thesis
    by (auto simp: same_but_playing_def split: sum.splits prod.splits)
qed

lemma decisions_ignore_play_stop:
  assumes "same_but_playing m m'"
  shows "decisions (snd (Mixer_run es m))
       = decisions (snd (Mixer_run (filter (\<lambda>e. \<not> is_play_stop e) es) m'))"
  using assms
proof (induction es arbitrary: m m')
  case Nil
  show ?case by simp
next
  case (Cons e es)
  show ?case
  proof (cases "is_play_stop e")
    case True
    from play_stop_step(1) [OF True] Cons.prems
    have "same_but_playing (fst (Mixer_step e m)) m'"
      by (rule same_but_playing_trans)
    then have "decisions (snd (Mixer_run es (fst (Mixer_step e m))))
             = decisions (snd (Mixer_run (filter (\<lambda>e. \<not> is_play_stop e) es) m'))"
      by (rule Cons.IH)
    with True play_stop_step(2) [OF True, of m] show ?thesis
      by (simp only: Mixer_run_Cons_snd decisions_append filter.simps) simp
  next
    case False
    from other_step [OF Cons.prems False]
    have s: "same_but_playing (fst (Mixer_step e m)) (fst (Mixer_step e m'))"
      and d: "decisions (snd (Mixer_step e m)) = decisions (snd (Mixer_step e m'))"
      by simp_all
    from s have "decisions (snd (Mixer_run es (fst (Mixer_step e m))))
      = decisions (snd (Mixer_run (filter (\<lambda>e. \<not> is_play_stop e) es) (fst (Mixer_step e m'))))"
      by (rule Cons.IH)
    with False d show ?thesis
      by (simp only: Mixer_run_Cons_snd decisions_append filter.simps if_True if_False simp_thms)
  qed
qed

text \<open>
  Claim C7. Take two mixers that agree on everything but \<^verbatim>\<open>is_playing\<close> (and the
  master cursor, which only \<^verbatim>\<open>is_playing\<close> gates), and two runs that are the same
  once the calls of \<^verbatim>\<open>audio_play\<close> and \<^verbatim>\<open>audio_stop\<close> are left out. Then the
  tracks take the same trigger decisions, in the same order: master play and stop do
  not silence the tracks.
\<close>

theorem trigger_decisions_ignore_is_playing:
  assumes "same_but_playing m m'"
    and "filter (\<lambda>e. \<not> is_play_stop e) es = filter (\<lambda>e. \<not> is_play_stop e) es'"
  shows "decisions (snd (Mixer_run es m)) = decisions (snd (Mixer_run es' m'))"
proof -
  have "decisions (snd (Mixer_run es m))
      = decisions (snd (Mixer_run (filter (\<lambda>e. \<not> is_play_stop e) es) m))"
    by (rule decisions_ignore_play_stop) (rule same_but_playing_refl)
  moreover have "decisions (snd (Mixer_run es' m'))
      = decisions (snd (Mixer_run (filter (\<lambda>e. \<not> is_play_stop e) es') m))"
    by (rule decisions_ignore_play_stop) (rule same_but_playing_sym, rule assms(1))
  ultimately show ?thesis using assms(2) by simp
qed

theorem trigger_decisions_ignore_is_playing_witness:
  "(case Mixer_init [[1, 2], [3]] 120 44100 4 True 80 of
      Inl e \<Rightarrow> False
    | Inr m \<Rightarrow>
        decisions (snd (Mixer_run
          [Start, SetSteps 0 [1, 0, 0, 0], AudioPlay, TrackLoopIter 0 1 0, TrackLoopIter 0 2 1] m))
      = decisions (snd (Mixer_run
          [Start, SetSteps 0 [1, 0, 0, 0], TrackLoopIter 0 1 0, AudioStop, TrackLoopIter 0 2 1]
          (Mixer_audio_play m))))"
proof -
  obtain m where m: "Mixer_init [[1, 2], [3]] 120 44100 4 True 80 = Inr m"
    by (simp add: Mixer_init_120)
  have s: "same_but_playing m (Mixer_audio_play m)"
    by (simp add: same_but_playing_def Mixer_audio_play_def)
  have f: "filter (\<lambda>e. \<not> is_play_stop e)
             [Start, SetSteps 0 [1, 0, 0, 0], AudioPlay, TrackLoopIter 0 1 0, TrackLoopIter 0 2 1]
         = filter (\<lambda>e. \<not> is_play_stop e)
             [Start, SetSteps 0 [1, 0, 0, 0], TrackLoopIter 0 1 0, AudioStop, TrackLoopIter 0 2 1]"
    by (simp add: is_play_stop_def)
  from trigger_decisions_ignore_is_playing [OF s f] show ?thesis
    by (simp only: m sum.case)
qed

end
